theory Spec2Isabelle
  imports Main "HOL-Library.AList"
begin

section \<open>Shared vocabulary\<close>

text \<open>
  The exceptions the two classes of \<^verbatim>\<open>genome.py\<close> can raise. A call returns the
  genome as the call left it together with either the exception (\<open>Inl\<close>) or the
  returned value (\<open>Inr\<close>).
\<close>

datatype error =
  IndexError | ValueError | KeyError | AttributeError | ZeroDivisionError |
  OverflowError | MemoryError

text \<open>
  A Python \<^verbatim>\<open>dict\<close> keeps its keys in insertion order, so it is an association list:
  \<open>map_of\<close> reads it, \<open>AList.update\<close> is \<^verbatim>\<open>d[k] = v\<close>, \<open>AList.delete\<close> is
  \<^verbatim>\<open>del d[k]\<close> and \<open>map fst\<close> is \<^verbatim>\<open>list(d.keys())\<close>.
\<close>

definition has_key :: "(int \<times> 'v) list \<Rightarrow> int \<Rightarrow> bool" where
  "has_key d k = (map_of d k \<noteq> None)"

section \<open>ListGenome\<close>

text \<open>An entry of \<^verbatim>\<open>self.nucleotide\<close>: the string \<^verbatim>\<open>"-"\<close> or the id of a TE.\<close>

datatype nuc = Dash | Id int

record ListGenome =
  nucleotide :: "nuc list"
  active_TE :: "(int \<times> int) list"
  te_id :: int

text \<open>
  \<^verbatim>\<open>[x] * n\<close> as CPython on a 64-bit machine does it. The count is first converted to a
  signed 64-bit index, which raises \<^verbatim>\<open>OverflowError\<close> outside \<open>-2^63 \<le> n < 2^63\<close>; a count
  below 1 gives the empty list; a list of more than \<open>(2^63 - 1) div 8 = 2^60 - 1\<close> entries
  is refused with \<^verbatim>\<open>MemoryError\<close> before anything is allocated. Under that bound the list
  is taken to be built: how much memory the machine has is not part of the model, for
  this list as for every other object the code creates.
\<close>

definition list_repeat :: "'a \<Rightarrow> int \<Rightarrow> error + 'a list" where
  "list_repeat x n =
     (if n < - 9223372036854775808 \<or> 9223372036854775808 \<le> n then Inl OverflowError
      else if 1152921504606846976 \<le> n then Inl MemoryError
      else Inr (replicate (nat n) x))"

text \<open>
  \<^verbatim>\<open>ListGenome.__init__\<close> (lines 99-103): the genome that \<^verbatim>\<open>ListGenome(n)\<close> builds. For a
  size that \<^verbatim>\<open>["-"] * n\<close> refuses the constructor raises, and there is no genome to call.
\<close>

definition LG_create :: "int \<Rightarrow> ListGenome" where
  "LG_create n = \<lparr>nucleotide = replicate (nat n) Dash, active_TE = [], te_id = 1\<rparr>"

text \<open>\<^verbatim>\<open>xs[i]\<close>: a negative index counts from the end, anything else out of range raises.\<close>

definition list_get :: "'a list \<Rightarrow> int \<Rightarrow> error + 'a" where
  "list_get xs i =
     (let n = int (length xs)
      in if i < - n \<or> n \<le> i then Inl IndexError
         else Inr (xs ! nat (if i < 0 then i + n else i)))"

text \<open>\<^verbatim>\<open>xs[pos:pos] = ys\<close>: the slice bound is clamped into \<open>0..len(xs)\<close>, never raising.\<close>

definition slice_index :: "'a list \<Rightarrow> int \<Rightarrow> nat" where
  "slice_index xs pos =
     (let n = int (length xs)
      in nat (if pos < 0 then max (pos + n) 0 else min pos n))"

definition slice_insert :: "'a list \<Rightarrow> int \<Rightarrow> 'a list \<Rightarrow> 'a list" where
  "slice_insert xs pos ys = take (slice_index xs pos) xs @ ys @ drop (slice_index xs pos) xs"

text \<open>\<^verbatim>\<open>x in self.active_TE\<close> for an entry of the list: \<^verbatim>\<open>"-"\<close> is never a key.\<close>

fun nuc_active :: "(int \<times> int) list \<Rightarrow> nuc \<Rightarrow> bool" where
  "nuc_active d Dash = False"
| "nuc_active d (Id k) = has_key d k"

fun del_nuc :: "nuc \<Rightarrow> (int \<times> int) list \<Rightarrow> (int \<times> int) list" where
  "del_nuc Dash d = d"
| "del_nuc (Id k) d = AList.delete k d"

text \<open>
  \<^verbatim>\<open>ListGenome.insert_te\<close> (lines 105-125). Two statements can raise. The first,
  \<^verbatim>\<open>self.nucleotide[pos]\<close> (line 118), raises before anything is changed. The last,
  \<^verbatim>\<open>self.nucleotide[pos:pos] = [te_id] * length\<close> (line 123), raises in the list
  multiplication, and then lines 119-122 have been run: the TE at \<open>pos\<close> is out of
  \<^verbatim>\<open>active_TE\<close>, the counter is advanced and \<^verbatim>\<open>active_TE[te_id] = length\<close> is written, but
  no position is.
\<close>

definition LG_insert_te :: "ListGenome \<Rightarrow> int \<Rightarrow> int \<Rightarrow> (error + int) \<times> ListGenome" where
  "LG_insert_te g pos len =
     (case list_get (nucleotide g) pos of
        Inl e \<Rightarrow> (Inl e, g)
      | Inr x \<Rightarrow>
          (let d = (if nuc_active (active_TE g) x then del_nuc x (active_TE g) else active_TE g);
               new_id = te_id g;
               g1 = g\<lparr>active_TE := AList.update new_id len d, te_id := te_id g + 1\<rparr>
           in (case list_repeat (Id new_id) len of
                 Inl e \<Rightarrow> (Inl e, g1)
               | Inr ys \<Rightarrow>
                   (Inr new_id, g1\<lparr>nucleotide := slice_insert (nucleotide g) pos ys\<rparr>))))"

text \<open>\<^verbatim>\<open>xs.index(x)\<close>: the first position of \<open>x\<close>, \<^verbatim>\<open>ValueError\<close> when there is none.\<close>

fun list_index :: "'a list \<Rightarrow> 'a \<Rightarrow> error + int" where
  "list_index [] x = Inl ValueError"
| "list_index (y # ys) x =
     (if y = x then Inr 0
      else (case list_index ys x of Inl e \<Rightarrow> Inl e | Inr i \<Rightarrow> Inr (i + 1)))"

text \<open>
  \<^verbatim>\<open>ListGenome.copy_te\<close> (lines 127-148): \<^verbatim>\<open>index\<close> raises when the TE is active but owns
  no position; \<^verbatim>\<open>% len(self.nucleotide)\<close> would raise on an empty list, which then has
  no position to find.
\<close>

definition LG_copy_te :: "ListGenome \<Rightarrow> int \<Rightarrow> int \<Rightarrow> (error + int option) \<times> ListGenome" where
  "LG_copy_te g t offset =
     (case map_of (active_TE g) t of
        None \<Rightarrow> (Inr None, g)
      | Some len \<Rightarrow>
          (case list_index (nucleotide g) (Id t) of
             Inl e \<Rightarrow> (Inl e, g)
           | Inr pos \<Rightarrow>
               (if length (nucleotide g) = 0 then (Inl ZeroDivisionError, g)
                else (case LG_insert_te g ((pos + offset) mod int (length (nucleotide g))) len of
                        (r, g') \<Rightarrow> (map_sum id Some r, g')))))"

text \<open>\<^verbatim>\<open>ListGenome.disable_te\<close>, \<^verbatim>\<open>active_tes\<close>, \<^verbatim>\<open>__len__\<close> and \<^verbatim>\<open>__str__\<close> (lines 150-186).\<close>

definition LG_disable_te :: "ListGenome \<Rightarrow> int \<Rightarrow> (error + unit) \<times> ListGenome" where
  "LG_disable_te g t =
     (if has_key (active_TE g) t
      then (Inr (), g\<lparr>active_TE := AList.delete t (active_TE g)\<rparr>)
      else (Inr (), g))"

definition LG_active_tes :: "ListGenome \<Rightarrow> int list" where
  "LG_active_tes g = map fst (active_TE g)"

definition LG_len :: "ListGenome \<Rightarrow> int" where
  "LG_len g = int (length (nucleotide g))"

fun nuc_char :: "(int \<times> int) list \<Rightarrow> nuc \<Rightarrow> char" where
  "nuc_char d Dash = CHR ''-''"
| "nuc_char d (Id k) = (if has_key d k then CHR ''A'' else CHR ''x'')"

definition LG_str :: "ListGenome \<Rightarrow> string" where
  "LG_str g = map (nuc_char (active_TE g)) (nucleotide g)"

section \<open>LinkedListGenome\<close>

text \<open>
  Nodes are objects that are shared between the chain and \<^verbatim>\<open>self.active_TE\<close>, so they
  live in a store: an address is a natural number, \<open>heap\<close> maps it to the node's fields
  and \<open>alloc\<close> is the next unused address. \<open>nxt\<close> is the field \<^verbatim>\<open>next\<close>,
  \<open>node_te_id\<close> the field \<^verbatim>\<open>te_id\<close> of a node; \<open>ll_length\<close> is \<^verbatim>\<open>self.length\<close>.
\<close>

record node =
  te :: int
  nxt :: "nat option"
  node_te_id :: int

record LinkedListGenome =
  heap :: "nat \<Rightarrow> node"
  alloc :: nat
  ll_active_TE :: "(int \<times> (nat \<times> int)) list"
  next_TE_id :: int
  head :: nat
  ll_length :: int

text \<open>\<^verbatim>\<open>Node(te)\<close> (lines 189-194): no successor, and the id 0.\<close>

definition Node :: "int \<Rightarrow> node" where
  "Node t = \<lparr>te = t, nxt = None, node_te_id = 0\<rparr>"

text \<open>The \<^verbatim>\<open>while current.next\<close> loop of \<^verbatim>\<open>insert\<close>; it does not return on a cyclic chain.\<close>

partial_function (option) find_tail :: "(nat \<Rightarrow> node) \<Rightarrow> nat \<Rightarrow> nat option" where
  [code]: "find_tail h current =
     (case nxt (h current) of None \<Rightarrow> Some current | Some b \<Rightarrow> find_tail h b)"

definition LL_insert :: "LinkedListGenome \<Rightarrow> int \<Rightarrow> LinkedListGenome option" where
  "LL_insert g t =
     (case find_tail (heap g) (head g) of
        None \<Rightarrow> None
      | Some current \<Rightarrow>
          Some (g\<lparr>heap := (heap g)(alloc g := Node t,
                                   current := (heap g current)\<lparr>nxt := Some (alloc g)\<rparr>),
                  alloc := Suc (alloc g)\<rparr>))"

text \<open>
  \<^verbatim>\<open>LinkedListGenome.__init__\<close> (lines 207-220): a head node at address 0, then \<open>n\<close> nodes
  appended one by one, then \<^verbatim>\<open>self.length = n\<close>.
\<close>

fun init_loop :: "nat \<Rightarrow> LinkedListGenome \<Rightarrow> LinkedListGenome option" where
  "init_loop 0 g = Some g"
| "init_loop (Suc k) g = (case LL_insert g 0 of None \<Rightarrow> None | Some g' \<Rightarrow> init_loop k g')"

definition LL_create :: "int \<Rightarrow> LinkedListGenome option" where
  "LL_create n =
     (case init_loop (nat n)
             \<lparr>heap = (\<lambda>_. Node 0), alloc = 1, ll_active_TE = [], next_TE_id = 1,
              head = 0, ll_length = 0\<rparr> of
        None \<Rightarrow> None
      | Some g \<Rightarrow> Some (g\<lparr>ll_length := n\<rparr>))"

text \<open>\<^verbatim>\<open>insert_in\<close>: a new node spliced in after \<open>node\<close>; returns the new node.\<close>

definition insert_in :: "LinkedListGenome \<Rightarrow> nat \<Rightarrow> int \<Rightarrow> LinkedListGenome \<times> nat" where
  "insert_in g node t =
     (let new = alloc g
      in (g\<lparr>heap := (heap g)(new := (Node t)\<lparr>nxt := nxt (heap g node)\<rparr>,
                              node := (heap g node)\<lparr>nxt := Some new\<rparr>),
            alloc := Suc new\<rparr>, new))"

text \<open>
  \<^verbatim>\<open>for _ in range(k): currentNode = currentNode.next\<close>, from a node that may be
  \<^verbatim>\<open>None\<close>: reading \<^verbatim>\<open>None.next\<close> raises.
\<close>

fun walk :: "(nat \<Rightarrow> node) \<Rightarrow> nat \<Rightarrow> nat option \<Rightarrow> error + nat option" where
  "walk h 0 c = Inr c"
| "walk h (Suc k) None = Inl AttributeError"
| "walk h (Suc k) (Some a) = walk h k (nxt (h a))"

text \<open>The loop of \<^verbatim>\<open>disable_te\<close>: the store as the loop left it, and the exception if any.\<close>

fun retag :: "(nat \<Rightarrow> node) \<Rightarrow> nat \<Rightarrow> nat option \<Rightarrow> (nat \<Rightarrow> node) \<times> error option" where
  "retag h 0 c = (h, None)"
| "retag h (Suc k) None = (h, Some AttributeError)"
| "retag h (Suc k) (Some a) = retag (h(a := (h a)\<lparr>te := 2\<rparr>)) k (nxt (h a))"

text \<open>
  \<^verbatim>\<open>LinkedListGenome.disable_te\<close> (lines 333-348): \<^verbatim>\<open>self.active_TE[te]\<close> raises
  \<^verbatim>\<open>KeyError\<close> for an id that is not a key; there is no test before it.
\<close>

definition LL_disable_te :: "LinkedListGenome \<Rightarrow> int \<Rightarrow> (error + unit) \<times> LinkedListGenome" where
  "LL_disable_te g t =
     (case map_of (ll_active_TE g) t of
        None \<Rightarrow> (Inl KeyError, g)
      | Some (currentNode, len) \<Rightarrow>
          (case retag (heap g) (nat len) (Some currentNode) of
             (h, Some e) \<Rightarrow> (Inl e, g\<lparr>heap := h\<rparr>)
           | (h, None) \<Rightarrow>
               (Inr (), g\<lparr>heap := h, ll_active_TE := AList.delete t (ll_active_TE g)\<rparr>)))"

text \<open>The loop \<^verbatim>\<open>for i in range(length)\<close> that writes the new TE after \<open>currentNode\<close>.\<close>

fun insert_nodes ::
  "LinkedListGenome \<Rightarrow> nat \<Rightarrow> int \<Rightarrow> int \<Rightarrow> nat \<Rightarrow> nat \<Rightarrow> LinkedListGenome" where
  "insert_nodes g currentNode TE_ID len i 0 = g"
| "insert_nodes g currentNode TE_ID len i (Suc k) =
     (let (g1, new) = insert_in g currentNode 1;
          g2 = g1\<lparr>heap := (heap g1)(new := (heap g1 new)\<lparr>node_te_id := TE_ID\<rparr>)\<rparr>;
          g3 = (if i = 0
                then g2\<lparr>ll_active_TE := AList.update TE_ID (new, len) (ll_active_TE g2)\<rparr>
                else g2)
      in insert_nodes g3 new TE_ID len (Suc i) k)"

text \<open>
  Lines 259-276 of \<^verbatim>\<open>insert_te\<close> and lines 313-331 of \<^verbatim>\<open>copy_te\<close> are the same
  statements: from the node before the insertion point, look at the node after it,
  disable its TE if it is tagged active, write the new nodes, advance the counters.
\<close>

definition place_te ::
  "LinkedListGenome \<Rightarrow> nat option \<Rightarrow> int \<Rightarrow> int \<Rightarrow> (error + int) \<times> LinkedListGenome" where
  "place_te g insertionNode TE_ID len =
     (case insertionNode of
        None \<Rightarrow> (Inl AttributeError, g)
      | Some ins \<Rightarrow>
          (case nxt (heap g ins) of
             None \<Rightarrow> (Inl AttributeError, g)
           | Some c \<Rightarrow>
               (case (if te (heap g c) = 1 then LL_disable_te g (node_te_id (heap g c))
                      else (Inr (), g)) of
                  (Inl e, g1) \<Rightarrow> (Inl e, g1)
                | (Inr u, g1) \<Rightarrow>
                    (let g2 = insert_nodes g1 ins TE_ID len 0 (nat len)
                     in (Inr TE_ID,
                         g2\<lparr>next_TE_id := next_TE_id g2 + 1,
                            ll_length := ll_length g2 + len\<rparr>)))))"

text \<open>
  \<^verbatim>\<open>LinkedListGenome.insert_te\<close> (lines 239-276): \<^verbatim>\<open>position % self.length\<close> raises on
  length 0; \<^verbatim>\<open>range(0, position - 1)\<close> has \<open>position - 1\<close> rounds, none for position 0
  and 1.
\<close>

definition LL_insert_te ::
  "LinkedListGenome \<Rightarrow> int \<Rightarrow> int \<Rightarrow> (error + int) \<times> LinkedListGenome" where
  "LL_insert_te g position len =
     (if ll_length g = 0 then (Inl ZeroDivisionError, g)
      else (case walk (heap g) (nat (position mod ll_length g - 1)) (Some (head g)) of
              Inl e \<Rightarrow> (Inl e, g)
            | Inr insertionNode \<Rightarrow> place_te g insertionNode (next_TE_id g) len))"

text \<open>The first loop of \<^verbatim>\<open>copy_te\<close>: count the nodes before the first one owned by \<open>t\<close>.\<close>

fun scan :: "(nat \<Rightarrow> node) \<Rightarrow> nat \<Rightarrow> int \<Rightarrow> nat option \<Rightarrow> int \<Rightarrow> error + int" where
  "scan h 0 t c pos = Inr pos"
| "scan h (Suc k) t None pos = Inl AttributeError"
| "scan h (Suc k) t (Some a) pos =
     (if node_te_id (h a) = t then Inr pos else scan h k t (nxt (h a)) (pos + 1))"

text \<open>
  \<^verbatim>\<open>LinkedListGenome.copy_te\<close> (lines 278-331): the walk to the insertion point has
  \<^verbatim>\<open>pos + (offset % self.length) - 1\<close> rounds.
\<close>

definition LL_copy_te ::
  "LinkedListGenome \<Rightarrow> int \<Rightarrow> int \<Rightarrow> (error + int option) \<times> LinkedListGenome" where
  "LL_copy_te g t offset =
     (case map_of (ll_active_TE g) t of
        None \<Rightarrow> (Inr None, g)
      | Some (anchor, len) \<Rightarrow>
          (case scan (heap g) (nat (ll_length g)) t (Some (head g)) 0 of
             Inl e \<Rightarrow> (Inl e, g)
           | Inr pos \<Rightarrow>
               (if ll_length g = 0 then (Inl ZeroDivisionError, g)
                else (case walk (heap g) (nat (pos + offset mod ll_length g - 1))
                             (Some (head g)) of
                        Inl e \<Rightarrow> (Inl e, g)
                      | Inr insertionNode \<Rightarrow>
                          (case place_te g insertionNode (next_TE_id g) len of
                             (r, g') \<Rightarrow> (map_sum id Some r, g'))))))"

definition LL_active_tes :: "LinkedListGenome \<Rightarrow> int list" where
  "LL_active_tes g = map fst (ll_active_TE g)"

text \<open>\<^verbatim>\<open>__len__\<close> and \<^verbatim>\<open>__str__\<close> walk the chain with \<^verbatim>\<open>while last.next\<close>.\<close>

partial_function (option) len_loop :: "(nat \<Rightarrow> node) \<Rightarrow> nat \<Rightarrow> int \<Rightarrow> int option" where
  [code]: "len_loop h last_node i =
     (case nxt (h last_node) of None \<Rightarrow> Some i | Some b \<Rightarrow> len_loop h b (i + 1))"

definition LL_len :: "LinkedListGenome \<Rightarrow> int option" where
  "LL_len g = len_loop (heap g) (head g) 0"

definition node_char :: "node \<Rightarrow> char" where
  "node_char nd = (if te nd = 1 then CHR ''A'' else if te nd = 2 then CHR ''x'' else CHR ''-'')"

partial_function (option) str_loop ::
  "(nat \<Rightarrow> node) \<Rightarrow> nat \<Rightarrow> string \<Rightarrow> string option" where
  [code]: "str_loop h last_node returnString =
     (case nxt (h last_node) of
        None \<Rightarrow> Some returnString
      | Some b \<Rightarrow> str_loop h b (returnString @ [node_char (h last_node)]))"

definition LL_str :: "LinkedListGenome \<Rightarrow> string option" where
  "LL_str g = str_loop (heap g) (head g) []"

section \<open>The chain of a linked genome\<close>

text \<open>
  \<open>seg h p as q\<close>: following \<^verbatim>\<open>next\<close> from the reference \<open>p\<close> visits exactly the
  nodes \<open>as\<close>, in this order, and arrives at the reference \<open>q\<close>. The chain of a genome
  is the segment from its head to \<^verbatim>\<open>None\<close>.
\<close>

primrec seg :: "(nat \<Rightarrow> node) \<Rightarrow> nat option \<Rightarrow> nat list \<Rightarrow> nat option \<Rightarrow> bool" where
  "seg h p [] q = (p = q)"
| "seg h p (a # as) q = (p = Some a \<and> seg h (nxt (h a)) as q)"

text \<open>The store after \<^verbatim>\<open>__init__\<close> has appended \<open>m\<close> nodes to the head.\<close>

definition chain_heap :: "nat \<Rightarrow> nat \<Rightarrow> node" where
  "chain_heap m = (\<lambda>a. if a < m then \<lparr>te = 0, nxt = Some (Suc a), node_te_id = 0\<rparr> else Node 0)"

definition init_state :: "nat \<Rightarrow> int \<Rightarrow> LinkedListGenome" where
  "init_state m n =
     \<lparr>heap = chain_heap m, alloc = Suc m, ll_active_TE = [], next_TE_id = 1,
      head = 0, ll_length = n\<rparr>"

text \<open>
  The nodes that the loop of \<^verbatim>\<open>disable_te\<close> visits in \<open>k\<close> rounds from \<open>p\<close>: fewer than
  \<open>k\<close> when the chain ends first, which is when the loop raises.
\<close>

fun run_nodes :: "(nat \<Rightarrow> node) \<Rightarrow> nat \<Rightarrow> nat option \<Rightarrow> nat list" where
  "run_nodes h 0 p = []"
| "run_nodes h (Suc k) None = []"
| "run_nodes h (Suc k) (Some a) = a # run_nodes h k (nxt (h a))"

section \<open>Sessions: a genome driven by a sequence of calls\<close>

text \<open>
  A caller creates a genome and calls its methods one after the other; a call that
  raises is observed as \<open>Raised\<close> and the session goes on with the genome as the call
  left it. A linked genome's \<^verbatim>\<open>__len__\<close> and \<^verbatim>\<open>__str__\<close> are \<^verbatim>\<open>while\<close> loops, so a
  session of a linked genome is \<open>None\<close> when one of them does not return.
\<close>

datatype op =
  Insert_te int int | Copy_te int int | Disable_te int | Active_tes | Length_of | Render

datatype obs =
  Raised error | New_id int | No_copy | Done | Ids "int list" | Len int | Str string

fun LG_step :: "ListGenome \<Rightarrow> op \<Rightarrow> obs \<times> ListGenome" where
  "LG_step g (Insert_te pos len) =
     (case LG_insert_te g pos len of
        (Inl e, g') \<Rightarrow> (Raised e, g') | (Inr k, g') \<Rightarrow> (New_id k, g'))"
| "LG_step g (Copy_te t offset) =
     (case LG_copy_te g t offset of
        (Inl e, g') \<Rightarrow> (Raised e, g')
      | (Inr None, g') \<Rightarrow> (No_copy, g')
      | (Inr (Some k), g') \<Rightarrow> (New_id k, g'))"
| "LG_step g (Disable_te t) =
     (case LG_disable_te g t of
        (Inl e, g') \<Rightarrow> (Raised e, g') | (Inr u, g') \<Rightarrow> (Done, g'))"
| "LG_step g Active_tes = (Ids (LG_active_tes g), g)"
| "LG_step g Length_of = (Len (LG_len g), g)"
| "LG_step g Render = (Str (LG_str g), g)"

fun LL_step :: "LinkedListGenome \<Rightarrow> op \<Rightarrow> (obs \<times> LinkedListGenome) option" where
  "LL_step g (Insert_te pos len) =
     (case LL_insert_te g pos len of
        (Inl e, g') \<Rightarrow> Some (Raised e, g') | (Inr k, g') \<Rightarrow> Some (New_id k, g'))"
| "LL_step g (Copy_te t offset) =
     (case LL_copy_te g t offset of
        (Inl e, g') \<Rightarrow> Some (Raised e, g')
      | (Inr None, g') \<Rightarrow> Some (No_copy, g')
      | (Inr (Some k), g') \<Rightarrow> Some (New_id k, g'))"
| "LL_step g (Disable_te t) =
     (case LL_disable_te g t of
        (Inl e, g') \<Rightarrow> Some (Raised e, g') | (Inr u, g') \<Rightarrow> Some (Done, g'))"
| "LL_step g Active_tes = Some (Ids (LL_active_tes g), g)"
| "LL_step g Length_of = (case LL_len g of None \<Rightarrow> None | Some n \<Rightarrow> Some (Len n, g))"
| "LL_step g Render = (case LL_str g of None \<Rightarrow> None | Some s \<Rightarrow> Some (Str s, g))"

fun LG_run :: "ListGenome \<Rightarrow> op list \<Rightarrow> obs list \<times> ListGenome" where
  "LG_run g [] = ([], g)"
| "LG_run g (x # xs) =
     (case LG_step g x of (b, g') \<Rightarrow> (case LG_run g' xs of (bs, g'') \<Rightarrow> (b # bs, g'')))"

fun LL_run :: "LinkedListGenome \<Rightarrow> op list \<Rightarrow> (obs list \<times> LinkedListGenome) option" where
  "LL_run g [] = Some ([], g)"
| "LL_run g (x # xs) =
     (case LL_step g x of
        None \<Rightarrow> None
      | Some (b, g') \<Rightarrow>
          (case LL_run g' xs of None \<Rightarrow> None | Some (bs, g'') \<Rightarrow> Some (b # bs, g'')))"

definition LG_session :: "int \<Rightarrow> op list \<Rightarrow> obs list \<times> ListGenome" where
  "LG_session n ops = LG_run (LG_create n) ops"

definition LL_session :: "int \<Rightarrow> op list \<Rightarrow> (obs list \<times> LinkedListGenome) option" where
  "LL_session n ops = (case LL_create n of None \<Rightarrow> None | Some g \<Rightarrow> LL_run g ops)"

text \<open>The ids that the successful \<^verbatim>\<open>insert_te\<close> and \<^verbatim>\<open>copy_te\<close> calls of a session returned.\<close>

fun new_ids :: "obs list \<Rightarrow> int list" where
  "new_ids [] = []"
| "new_ids (New_id k # bs) = k # new_ids bs"
| "new_ids (b # bs) = new_ids bs"

text \<open>The contract's precondition on a call: \<^verbatim>\<open>insert_te\<close> is given a length \<open>\<ge> 0\<close>.\<close>

fun in_contract :: "op \<Rightarrow> bool" where
  "in_contract (Insert_te pos len) = (0 \<le> len)"
| "in_contract x = True"

section \<open>Invariants\<close>

text \<open>Every id in a list genome was issued: it is below the counter.\<close>

fun nuc_below :: "int \<Rightarrow> nuc \<Rightarrow> bool" where
  "nuc_below c Dash = True"
| "nuc_below c (Id k) = (k < c)"

definition LG_inv :: "ListGenome \<Rightarrow> bool" where
  "LG_inv g =
     ((\<forall>k. has_key (active_TE g) k \<longrightarrow> k < te_id g) \<and>
      (\<forall>x\<in>set (nucleotide g). nuc_below (te_id g) x))"

text \<open>
  \<open>shape g as\<close>: the chain of \<open>g\<close> is the finite list \<open>as\<close> of allocated nodes.
\<close>

definition shape :: "LinkedListGenome \<Rightarrow> nat list \<Rightarrow> bool" where
  "shape g as = (seg (heap g) (Some (head g)) as None \<and> (\<forall>a\<in>set as. a < alloc g))"

text \<open>
  \<open>key_ok g k anchor len\<close>: the entry \<open>k \<mapsto> [anchor, len]\<close> of \<^verbatim>\<open>active_TE\<close> points at a run
  of \<open>len \<ge> 1\<close> nodes, all tagged active and owned by \<open>k\<close>.
\<close>

definition key_ok :: "LinkedListGenome \<Rightarrow> int \<Rightarrow> nat \<Rightarrow> int \<Rightarrow> bool" where
  "key_ok g k anchor len =
     (1 \<le> len \<and> k < next_TE_id g \<and>
      length (run_nodes (heap g) (nat len) (Some anchor)) = nat len \<and>
      (\<forall>a\<in>set (run_nodes (heap g) (nat len) (Some anchor)).
         a < alloc g \<and> te (heap g a) = 1 \<and> node_te_id (heap g a) = k))"

text \<open>
  \<open>node_ok g a\<close>: the tag of node \<open>a\<close> is 0 (empty, owned by nobody: id 0), 1 (active:
  its owner is a key of \<^verbatim>\<open>active_TE\<close> and the node lies in the owner's run) or 2.
\<close>

definition in_run :: "LinkedListGenome \<Rightarrow> nat \<Rightarrow> bool" where
  "in_run g a =
     (case map_of (ll_active_TE g) (node_te_id (heap g a)) of
        None \<Rightarrow> False
      | Some (anchor, len) \<Rightarrow> a \<in> set (run_nodes (heap g) (nat len) (Some anchor)))"

definition node_ok :: "LinkedListGenome \<Rightarrow> nat \<Rightarrow> bool" where
  "node_ok g a =
     (node_te_id (heap g a) < next_TE_id g \<and>
      (te (heap g a) = 0 \<or> te (heap g a) = 1 \<or> te (heap g a) = 2) \<and>
      (te (heap g a) = 0) = (node_te_id (heap g a) = 0) \<and>
      (te (heap g a) = 1) = has_key (ll_active_TE g) (node_te_id (heap g a)) \<and>
      (te (heap g a) = 1) = in_run g a)"

definition LL_inv :: "LinkedListGenome \<Rightarrow> nat list \<Rightarrow> bool" where
  "LL_inv g as =
     (shape g as \<and> ll_length g \<le> int (length as) - 1 \<and> 1 \<le> next_TE_id g \<and>
      (\<forall>k anchor len. map_of (ll_active_TE g) k = Some (anchor, len) \<longrightarrow> key_ok g k anchor len) \<and>
      (\<forall>a\<in>set as. node_ok g a))"

text \<open>
  The store after the loop of \<open>insert_nodes\<close> has written \<open>k\<close> nodes for the TE \<open>tid\<close>
  after the node \<open>cur\<close>, the first at address \<open>b\<close>: \<open>cur\<close> points at \<open>b\<close>, every new node at
  the next one and the last new node at what followed \<open>cur\<close>.
\<close>

definition spliced :: "(nat \<Rightarrow> node) \<Rightarrow> nat \<Rightarrow> nat \<Rightarrow> nat \<Rightarrow> int \<Rightarrow> nat \<Rightarrow> node" where
  "spliced h cur b k tid =
     (\<lambda>a. if a = cur \<and> 0 < k then (h cur)\<lparr>nxt := Some b\<rparr>
          else if b \<le> a \<and> a < b + k
               then \<lparr>te = 1, nxt = (if Suc a < b + k then Some (Suc a) else nxt (h cur)),
                     node_te_id = tid\<rparr>
               else h a)"

text \<open>
  \<open>counted c b c'\<close>: a call observed as \<open>b\<close> moved the id counter from \<open>c\<close> to \<open>c'\<close>
  the way the contract asks: a new id is the counter's value and advances it by one,
  anything else leaves it alone.
\<close>

fun counted :: "int \<Rightarrow> obs \<Rightarrow> int \<Rightarrow> bool" where
  "counted c (New_id k) c' = (k = c \<and> c' = c + 1)"
| "counted c b c' = (c' = c)"

section \<open>What a rendering shows\<close>

text \<open>
  The character of a position, from who owns it and the ids that \<^verbatim>\<open>active_tes()\<close>
  returns: \<^verbatim>\<open>'-'\<close> for a position nobody owns, \<^verbatim>\<open>'A'\<close> for a position of an active TE,
  \<^verbatim>\<open>'x'\<close> for a position of a TE that is not active. A node of a linked genome is owned
  by the TE whose id it carries; the id 0 that \<^verbatim>\<open>Node.__init__\<close> sets is nobody's.
\<close>

fun pos_char :: "int list \<Rightarrow> nuc \<Rightarrow> char" where
  "pos_char active Dash = CHR ''-''"
| "pos_char active (Id k) = (if k \<in> set active then CHR ''A'' else CHR ''x'')"

definition owner :: "node \<Rightarrow> nuc" where
  "owner nd = (if node_te_id nd = 0 then Dash else Id (node_te_id nd))"

section \<open>Chains of a linked genome: basic facts\<close>

lemma seg_append: "seg h p (as @ bs) q = (\<exists>r. seg h p as r \<and> seg h r bs q)"
  by (induction as arbitrary: p) auto

lemma seg_functional: "seg h p as None \<Longrightarrow> seg h p bs None \<Longrightarrow> as = bs"
proof (induction as arbitrary: p bs)
  case Nil
  then show ?case by (cases bs) auto
next
  case (Cons a as)
  then show ?case by (cases bs) auto
qed

lemma seg_notin_tail: "seg h (Some a) (a # as) None \<Longrightarrow> a \<notin> set as"
proof
  assume s: "seg h (Some a) (a # as) None" and "a \<in> set as"
  then obtain xs ys where as: "as = xs @ a # ys" by (auto simp: in_set_conv_decomp)
  from s have "seg h (nxt (h a)) (xs @ a # ys) None" by (simp add: as)
  then have "seg h (Some a) (a # ys) None" by (auto simp: seg_append)
  with s have "a # as = a # ys" by (rule seg_functional)
  then show False by (simp add: as)
qed

lemma seg_distinct: "seg h p as None \<Longrightarrow> distinct as"
proof (induction as arbitrary: p)
  case Nil
  then show ?case by simp
next
  case (Cons a as)
  then have "a \<notin> set as" using seg_notin_tail[of h a as] by simp
  with Cons show ?case by auto
qed

lemma seg_cong: "(\<And>a. a \<in> set as \<Longrightarrow> nxt (h' a) = nxt (h a)) \<Longrightarrow> seg h' p as q = seg h p as q"
  by (induction as arbitrary: p) auto

lemma find_tail_seg: "seg h (Some a) as None \<Longrightarrow> find_tail h a = Some (last as)"
proof (induction as arbitrary: a)
  case Nil
  then show ?case by simp
next
  case (Cons b bs)
  show ?case
  proof (cases bs)
    case Nil
    with Cons.prems show ?thesis by (subst find_tail.simps) simp
  next
    case (Cons c cs)
    with Cons.prems have "nxt (h a) = Some c" and "seg h (Some c) bs None" and "b = a" by auto
    with Cons.IH[of c] Cons show ?thesis by (subst find_tail.simps) simp
  qed
qed

lemma len_loop_seg: "seg h (Some a) as None \<Longrightarrow> len_loop h a i = Some (i + int (length as) - 1)"
proof (induction as arbitrary: a i)
  case Nil
  then show ?case by simp
next
  case (Cons b bs)
  show ?case
  proof (cases bs)
    case Nil
    with Cons.prems show ?thesis by (subst len_loop.simps) simp
  next
    case (Cons c cs)
    with Cons.prems have "nxt (h a) = Some c" and "seg h (Some c) bs None" and "b = a" by auto
    with Cons.IH[of c "i + 1"] Cons show ?thesis by (subst len_loop.simps) simp
  qed
qed

lemma str_loop_seg:
  "seg h (Some a) as None \<Longrightarrow> str_loop h a s = Some (s @ map (\<lambda>b. node_char (h b)) (butlast as))"
proof (induction as arbitrary: a s)
  case Nil
  then show ?case by simp
next
  case (Cons b bs)
  show ?case
  proof (cases bs)
    case Nil
    with Cons.prems show ?thesis by (subst str_loop.simps) simp
  next
    case (Cons c cs)
    with Cons.prems have "nxt (h a) = Some c" and "seg h (Some c) bs None" and "b = a" by auto
    with Cons.IH[of c "s @ [node_char (h a)]"] Cons show ?thesis by (subst str_loop.simps) simp
  qed
qed

lemma seg_chain_heap: "i \<le> m \<Longrightarrow> seg (chain_heap m) (Some i) [i..<Suc m] None"
proof (induction "m - i" arbitrary: i)
  case 0
  then show ?case by (simp add: chain_heap_def Node_def)
next
  case (Suc d)
  then have lt: "i < m" by simp
  then have "[i..<Suc m] = i # [Suc i..<Suc m]" by (simp add: upt_conv_Cons)
  moreover have "seg (chain_heap m) (Some (Suc i)) [Suc i..<Suc m] None"
    using Suc by simp
  moreover have "nxt (chain_heap m i) = Some (Suc i)" using lt by (simp add: chain_heap_def)
  ultimately show ?case by simp
qed

lemma LL_insert_init: "LL_insert (init_state m n) 0 = Some (init_state (Suc m) n)"
proof -
  have "find_tail (chain_heap m) 0 = Some m"
    using find_tail_seg[OF seg_chain_heap[of 0 m]] by simp
  moreover have "(chain_heap m)(Suc m := Node 0, m := (chain_heap m m)\<lparr>nxt := Some (Suc m)\<rparr>) = chain_heap (Suc m)"
    by (auto simp: fun_eq_iff chain_heap_def Node_def)
  ultimately show ?thesis by (simp add: LL_insert_def init_state_def)
qed

lemma init_loop_init: "init_loop k (init_state m n) = Some (init_state (m + k) n)"
  by (induction k arbitrary: m) (simp_all add: LL_insert_init)

lemma LL_create_eq: "LL_create n = Some (init_state (nat n) n)"
proof -
  have "\<lparr>heap = (\<lambda>_. Node 0), alloc = 1, ll_active_TE = [], next_TE_id = 1, head = 0, ll_length = 0\<rparr> = init_state 0 0"
    by (auto simp: init_state_def chain_heap_def fun_eq_iff)
  then show ?thesis using init_loop_init[of "nat n" 0 0] by (simp add: LL_create_def init_state_def)
qed

section \<open>The loops of a linked genome in closed form\<close>

lemma walk_seg:
  "seg h p as None \<Longrightarrow>
   walk h k p = (if k < length as then Inr (Some (as ! k))
                 else if k = length as then Inr None else Inl AttributeError)"
proof (induction k arbitrary: p as)
  case 0
  then show ?case by (cases as) auto
next
  case (Suc k)
  show ?case
  proof (cases as)
    case Nil
    with Suc.prems show ?thesis by simp
  next
    case (Cons a bs)
    with Suc.prems have "p = Some a" and "seg h (nxt (h a)) bs None" by auto
    with Suc.IH[of "nxt (h a)" bs] Cons show ?thesis by auto
  qed
qed

lemma seg_nth_nxt:
  "seg h p as None \<Longrightarrow> k < length as \<Longrightarrow>
   nxt (h (as ! k)) = (if Suc k < length as then Some (as ! Suc k) else None)"
proof (induction as arbitrary: p k)
  case Nil
  then show ?case by simp
next
  case (Cons a as)
  show ?case
  proof (cases k)
    case 0
    with Cons.prems show ?thesis by (cases as) auto
  next
    case (Suc j)
    with Cons.prems Cons.IH[of "nxt (h a)" j] show ?thesis by auto
  qed
qed

lemma scan_seg:
  "seg h p as None \<Longrightarrow> k \<le> length as \<Longrightarrow> \<exists>r. scan h k t p pos = Inr r \<and> pos \<le> r \<and> r \<le> pos + int k"
proof (induction k arbitrary: p as pos)
  case 0
  then show ?case by simp
next
  case (Suc k)
  then obtain a bs where as: "as = a # bs" by (cases as) auto
  with Suc.prems have p: "p = Some a" and s: "seg h (nxt (h a)) bs None" and k: "k \<le> length bs"
    by auto
  from Suc.IH[OF s k, of "pos + 1"] p show ?case by auto
qed

lemma run_nodes_cong:
  "(\<And>a. nxt (h' a) = nxt (h a)) \<Longrightarrow> run_nodes h' k p = run_nodes h k p"
proof (induction k arbitrary: p)
  case 0
  then show ?case by simp
next
  case (Suc k)
  then show ?case by (cases p) auto
qed

lemma retag_eq:
  "retag h k p =
     ((\<lambda>a. if a \<in> set (run_nodes h k p) then (h a)\<lparr>te := 2\<rparr> else h a),
      if length (run_nodes h k p) = k then None else Some AttributeError)"
proof (induction k arbitrary: h p)
  case 0
  then show ?case by simp
next
  case (Suc k)
  show ?case
  proof (cases p)
    case None
    then show ?thesis by simp
  next
    case (Some a)
    define h1 where "h1 = h(a := (h a)\<lparr>te := 2\<rparr>)"
    define R where "R = run_nodes h k (nxt (h a))"
    have r: "run_nodes h1 k (nxt (h a)) = R"
      unfolding R_def h1_def by (rule run_nodes_cong) simp
    have f: "(\<lambda>b. if b \<in> set R then (h1 b)\<lparr>te := 2\<rparr> else h1 b) =
          (\<lambda>b. if b \<in> set (a # R) then (h b)\<lparr>te := 2\<rparr> else h b)"
      by (auto simp: fun_eq_iff h1_def)
    have "retag h (Suc k) p = retag h1 k (nxt (h a))"
      by (simp add: Some h1_def)
    also have "\<dots> = ((\<lambda>b. if b \<in> set R then (h1 b)\<lparr>te := 2\<rparr> else h1 b),
                     if length R = k then None else Some AttributeError)"
      using Suc.IH[of h1 "nxt (h a)"] by (simp only: r)
    finally show ?thesis
      by (simp only: f) (simp add: Some R_def)
  qed
qed

lemma spliced_0: "spliced h cur b 0 tid = h"
  by (auto simp: spliced_def fun_eq_iff)

lemma spliced_Suc:
  "cur < b \<Longrightarrow>
   spliced (h(cur := (h cur)\<lparr>nxt := Some b\<rparr>,
              b := (Node 1)\<lparr>nxt := nxt (h cur), node_te_id := tid\<rparr>))
           b (Suc b) k tid
   = spliced h cur b (Suc k) tid"
  by (auto simp: spliced_def fun_eq_iff Node_def)

lemma insert_nodes_eq:
  "cur < alloc g \<Longrightarrow>
   insert_nodes g cur tid len i k =
     g\<lparr>heap := spliced (heap g) cur (alloc g) k tid,
       alloc := alloc g + k,
       ll_active_TE := (if i = 0 \<and> 0 < k then AList.update tid (alloc g, len) (ll_active_TE g)
                        else ll_active_TE g)\<rparr>"
proof (induction k arbitrary: g cur i)
  case 0
  then show ?case by (simp add: spliced_0)
next
  case (Suc k)
  show ?case
    using Suc.prems
    by (simp add: insert_in_def Let_def Suc.IH spliced_Suc)
qed

section \<open>Every call keeps the chain a finite list\<close>

lemma seg_spliced_new:
  "cur < b \<Longrightarrow> j < k \<Longrightarrow>
   seg (spliced h cur b k tid) (Some (b + j)) [b + j..<b + k] (nxt (h cur))"
proof (induction "k - j" arbitrary: j)
  case 0
  then show ?case by simp
next
  case (Suc d)
  have l: "[b + j..<b + k] = (b + j) # [b + Suc j..<b + k]"
    using Suc.prems by (simp add: upt_conv_Cons)
  show ?case
  proof (cases "Suc j < k")
    case True
    then have "nxt (spliced h cur b k tid (b + j)) = Some (b + Suc j)"
      using Suc.prems by (simp add: spliced_def)
    moreover have "seg (spliced h cur b k tid) (Some (b + Suc j)) [b + Suc j..<b + k] (nxt (h cur))"
    proof (rule Suc.hyps(1))
      show "d = k - Suc j" using Suc.hyps(2) by simp
      show "cur < b" by (rule Suc.prems(1))
      show "Suc j < k" by (rule True)
    qed
    ultimately show ?thesis by (simp add: l)
  next
    case False
    then have "Suc j = k" using Suc.prems by simp
    then have "nxt (spliced h cur b k tid (b + j)) = nxt (h cur)"
      using Suc.prems by (auto simp: spliced_def)
    then show ?thesis using \<open>Suc j = k\<close> by (simp add: l)
  qed
qed

lemma seg_spliced:
  assumes s: "seg h p (us @ cur # vs) None" and b: "\<forall>a\<in>set (us @ cur # vs). a < b"
  shows "seg (spliced h cur b k tid) p (us @ cur # [b..<b + k] @ vs) None"
proof -
  let ?h = "spliced h cur b k tid"
  from s have d: "distinct (us @ cur # vs)" by (rule seg_distinct)
  from s have s1: "seg h p us (Some cur)" and s2: "seg h (nxt (h cur)) vs None"
    by (auto simp: seg_append)
  have cb: "cur < b" using b by simp
  have old: "\<And>a. a \<in> set us \<union> set vs \<Longrightarrow> ?h a = h a"
  proof -
    fix a assume "a \<in> set us \<union> set vs"
    then have "a \<noteq> cur" and "a < b" using d b by auto
    then show "?h a = h a" by (simp add: spliced_def)
  qed
  have "seg ?h p us (Some cur) = seg h p us (Some cur)"
    by (rule seg_cong) (simp add: old)
  with s1 have t1: "seg ?h p us (Some cur)" by simp
  have "seg ?h (nxt (h cur)) vs None = seg h (nxt (h cur)) vs None"
    by (rule seg_cong) (simp add: old)
  with s2 have t2: "seg ?h (nxt (h cur)) vs None" by simp
  have t3: "seg ?h (nxt (?h cur)) ([b..<b + k] @ vs) None"
  proof (cases "k = 0")
    case True
    then have "?h = h" by (simp add: spliced_0)
    with s2 True show ?thesis by simp
  next
    case False
    then have "nxt (?h cur) = Some b" by (simp add: spliced_def)
    moreover have "seg ?h (Some (b + 0)) [b + 0..<b + k] (nxt (h cur))"
      using cb False by (intro seg_spliced_new) auto
    ultimately show ?thesis using t2 by (auto simp: seg_append)
  qed
  show ?thesis using t1 t3 by (auto simp: seg_append)
qed

lemma insert_nodes_next [simp]:
  "next_TE_id (insert_nodes g cur tid len i k) = next_TE_id g"
  by (induction k arbitrary: g cur i) (simp_all add: insert_in_def Let_def)

lemma insert_nodes_ll_length [simp]:
  "ll_length (insert_nodes g cur tid len i k) = ll_length g"
  by (induction k arbitrary: g cur i) (simp_all add: insert_in_def Let_def)

lemma insert_nodes_head [simp]:
  "head (insert_nodes g cur tid len i k) = head g"
  by (induction k arbitrary: g cur i) (simp_all add: insert_in_def Let_def)

lemma disable_frame:
  "next_TE_id (snd (LL_disable_te g t)) = next_TE_id g \<and>
   ll_length (snd (LL_disable_te g t)) = ll_length g \<and>
   head (snd (LL_disable_te g t)) = head g \<and>
   alloc (snd (LL_disable_te g t)) = alloc g \<and>
   (\<forall>a. nxt (heap (snd (LL_disable_te g t)) a) = nxt (heap g a))"
  by (auto simp: LL_disable_te_def retag_eq split: option.splits)

lemma disable_shape: "shape g as \<Longrightarrow> shape (snd (LL_disable_te g t)) as"
proof -
  assume a: "shape g as"
  let ?g = "snd (LL_disable_te g t)"
  have "seg (heap ?g) (Some (head g)) as None = seg (heap g) (Some (head g)) as None"
    by (rule seg_cong) (simp add: disable_frame)
  with a show ?thesis by (simp add: shape_def disable_frame)
qed

lemma insert_nodes_shape:
  assumes sh: "shape g as" and i: "ins \<in> set as"
  shows "\<exists>as'. shape (insert_nodes g ins tid len i k) as'"
proof -
  from i obtain us vs where as: "as = us @ ins # vs" by (auto simp: in_set_conv_decomp)
  from sh have lt: "\<forall>a\<in>set (us @ ins # vs). a < alloc g" and
    s: "seg (heap g) (Some (head g)) (us @ ins # vs) None"
    by (auto simp: shape_def as)
  then have c: "ins < alloc g" by simp
  have A: "seg (spliced (heap g) ins (alloc g) k tid) (Some (head g))
          (us @ ins # [alloc g..<alloc g + k] @ vs) None"
    using s lt by (rule seg_spliced)
  have B: "\<forall>a\<in>set (us @ ins # [alloc g..<alloc g + k] @ vs). a < alloc g + k"
    using lt by (auto intro: trans_less_add1)
  have "shape (insert_nodes g ins tid len i k) (us @ ins # [alloc g..<alloc g + k] @ vs)"
    unfolding shape_def insert_nodes_eq[OF c] using A B by auto
  then show ?thesis ..
qed

lemma place_te_shape:
  assumes sh: "shape g as" and p: "\<And>ins. p = Some ins \<Longrightarrow> ins \<in> set as"
  shows "\<exists>as'. shape (snd (place_te g p tid len)) as'"
proof (cases p)
  case None
  with sh show ?thesis by (auto simp: place_te_def)
next
  case (Some ins)
  with p have i: "ins \<in> set as" by simp
  show ?thesis
  proof (cases "nxt (heap g ins)")
    case None
    with sh Some show ?thesis by (auto simp: place_te_def)
  next
    case (Some c)
    define r where "r = (if te (heap g c) = 1 then LL_disable_te g (node_te_id (heap g c))
                      else (Inr (), g))"
    have s1: "shape (snd r) as" using sh disable_shape by (simp add: r_def)
    show ?thesis
    proof (cases "fst r")
      case (Inl e)
      then have "snd (place_te g p tid len) = snd r"
        using \<open>p = Some ins\<close> Some
        by (cases r) (simp add: place_te_def r_def[symmetric])
      with s1 show ?thesis by auto
    next
      case (Inr u)
      from insert_nodes_shape[OF s1 i] obtain as' where
        "shape (insert_nodes (snd r) ins tid len 0 (nat len)) as'" by blast
      then have "shape (snd (place_te g p tid len)) as'"
        using \<open>p = Some ins\<close> Some Inr
        by (cases r) (simp add: place_te_def r_def[symmetric] shape_def Let_def)
      then show ?thesis ..
    qed
  qed
qed

lemma place_te_counter:
  "(case place_te g p tid len of
      (Inl e, g') \<Rightarrow> next_TE_id g' = next_TE_id g
    | (Inr k, g') \<Rightarrow> k = tid \<and> next_TE_id g' = next_TE_id g + 1)"
  using disable_frame[of g]
  by (auto simp: place_te_def Let_def split: option.splits prod.splits sum.splits if_splits)
    (metis snd_conv)+

lemma walk_in_chain:
  "seg h p as None \<Longrightarrow> walk h k p = Inr (Some a) \<Longrightarrow> a \<in> set as"
  by (auto simp: walk_seg split: if_splits)

section \<open>The id counter\<close>

lemma LL_insert_te_shape:
  assumes "shape g as" shows "\<exists>as'. shape (snd (LL_insert_te g pos len)) as'"
proof (cases "ll_length g = 0")
  case True
  with assms show ?thesis by (auto simp: LL_insert_te_def)
next
  case False
  show ?thesis
  proof (cases "walk (heap g) (nat (pos mod ll_length g - 1)) (Some (head g))")
    case (Inl e)
    with assms False show ?thesis by (auto simp: LL_insert_te_def)
  next
    case (Inr p)
    have "\<And>ins. p = Some ins \<Longrightarrow> ins \<in> set as"
      using assms Inr by (auto simp: shape_def dest: walk_in_chain)
    from place_te_shape[OF assms this] Inr False show ?thesis
      by (simp add: LL_insert_te_def)
  qed
qed

lemma LL_copy_te_shape:
  assumes "shape g as" shows "\<exists>as'. shape (snd (LL_copy_te g t offset)) as'"
proof (cases "map_of (ll_active_TE g) t")
  case None
  with assms show ?thesis by (auto simp: LL_copy_te_def)
next
  case (Some al)
  obtain anchor len where al: "al = (anchor, len)" by (cases al)
  show ?thesis
  proof (cases "scan (heap g) (nat (ll_length g)) t (Some (head g)) 0")
    case (Inl e)
    with assms Some al show ?thesis by (auto simp: LL_copy_te_def)
  next
    case (Inr pos)
    show ?thesis
    proof (cases "ll_length g = 0")
      case True
      with assms Some al Inr show ?thesis by (auto simp: LL_copy_te_def)
    next
      case False
      show ?thesis
      proof (cases "walk (heap g) (nat (pos + offset mod ll_length g - 1)) (Some (head g))")
        case (Inl e)
        with assms Some al Inr False show ?thesis by (auto simp: LL_copy_te_def)
      next
        case Inr2: (Inr p)
        have "\<And>ins. p = Some ins \<Longrightarrow> ins \<in> set as"
          using assms Inr2 by (auto simp: shape_def dest: walk_in_chain)
        from place_te_shape[OF assms this, where tid="next_TE_id g" and len=len] Some al Inr Inr2 False
        show ?thesis
          by (simp add: LL_copy_te_def split_def)
      qed
    qed
  qed
qed

lemma LL_insert_te_counter:
  "(case LL_insert_te g pos len of
      (Inl e, g') \<Rightarrow> next_TE_id g' = next_TE_id g
    | (Inr k, g') \<Rightarrow> k = next_TE_id g \<and> next_TE_id g' = next_TE_id g + 1)"
  using place_te_counter[where g=g and tid="next_TE_id g" and len=len]
  by (auto simp: LL_insert_te_def split: sum.splits)

lemma LL_copy_te_counter:
  "(case LL_copy_te g t offset of
      (Inl e, g') \<Rightarrow> next_TE_id g' = next_TE_id g
    | (Inr None, g') \<Rightarrow> next_TE_id g' = next_TE_id g
    | (Inr (Some k), g') \<Rightarrow> k = next_TE_id g \<and> next_TE_id g' = next_TE_id g + 1)"
proof (cases "map_of (ll_active_TE g) t")
  case None
  then show ?thesis by (simp add: LL_copy_te_def)
next
  case (Some al)
  obtain anchor len where al: "al = (anchor, len)" by (cases al)
  show ?thesis
  proof (cases "scan (heap g) (nat (ll_length g)) t (Some (head g)) 0")
    case (Inl e)
    with Some al show ?thesis by (simp add: LL_copy_te_def)
  next
    case (Inr pos)
    show ?thesis
    proof (cases "walk (heap g) (nat (pos + offset mod ll_length g - 1)) (Some (head g))")
      case (Inl e)
      with Some al Inr show ?thesis by (simp add: LL_copy_te_def)
    next
      case Inr2: (Inr p)
      obtain r g' where r: "place_te g p (next_TE_id g) len = (r, g')"
        by (cases "place_te g p (next_TE_id g) len")
      with place_te_counter[where g=g and tid="next_TE_id g" and len=len and p=p]
      show ?thesis using Some al Inr Inr2
        by (cases r) (auto simp: LL_copy_te_def)
    qed
  qed
qed

lemma LL_len_shape: "shape g as \<Longrightarrow> LL_len g = Some (int (length as) - 1)"
  using len_loop_seg[of "heap g" "head g" as 0] by (simp add: LL_len_def shape_def)

lemma LL_str_shape:
  "shape g as \<Longrightarrow> LL_str g = Some (map (\<lambda>b. node_char (heap g b)) (butlast as))"
  using str_loop_seg[of "heap g" "head g" as "[]"] by (simp add: LL_str_def shape_def)

lemma LL_step_shape:
  assumes "shape g as"
  shows "\<exists>b g' as'. LL_step g x = Some (b, g') \<and> shape g' as' \<and>
           counted (next_TE_id g) b (next_TE_id g')"
proof (cases x)
  case (Insert_te pos len)
  obtain r g' where r: "LL_insert_te g pos len = (r, g')" by (cases "LL_insert_te g pos len")
  from LL_insert_te_shape[OF assms, of pos len] r obtain as' where "shape g' as'" by auto
  moreover from LL_insert_te_counter[of g pos len] r
  have "\<exists>b. LL_step g x = Some (b, g') \<and> counted (next_TE_id g) b (next_TE_id g')"
    by (cases r) (auto simp: Insert_te)
  ultimately show ?thesis by blast
next
  case (Copy_te t offset)
  obtain r g' where r: "LL_copy_te g t offset = (r, g')" by (cases "LL_copy_te g t offset")
  from LL_copy_te_shape[OF assms, of t offset] r obtain as' where "shape g' as'" by auto
  moreover from LL_copy_te_counter[of g t offset] r
  have "\<exists>b. LL_step g x = Some (b, g') \<and> counted (next_TE_id g) b (next_TE_id g')"
    by (cases r) (auto simp: Copy_te split: option.splits)
  ultimately show ?thesis by blast
next
  case (Disable_te t)
  obtain r g' where r: "LL_disable_te g t = (r, g')" by (cases "LL_disable_te g t")
  from disable_shape[OF assms, of t] r have "shape g' as" by simp
  moreover from disable_frame[of g t] r
  have "\<exists>b. LL_step g x = Some (b, g') \<and> counted (next_TE_id g) b (next_TE_id g')"
    by (cases r) (auto simp: Disable_te)
  ultimately show ?thesis by blast
next
  case Active_tes
  with assms show ?thesis by auto
next
  case Length_of
  with assms LL_len_shape[OF assms] show ?thesis by auto
next
  case Render
  with assms LL_str_shape[OF assms] show ?thesis by auto
qed

lemma new_ids_Cons:
  "counted c b c1 \<Longrightarrow> c1 \<le> c' \<Longrightarrow> new_ids bs = [c1..c' - 1] \<Longrightarrow>
   c \<le> c' \<and> new_ids (b # bs) = [c..c' - 1]"
  by (cases b) (auto simp: upto_rec1[of c "c' - 1"])

lemma LL_run_ids:
  "shape g as \<Longrightarrow>
   \<exists>bs g' as'. LL_run g ops = Some (bs, g') \<and> shape g' as' \<and>
      next_TE_id g \<le> next_TE_id g' \<and> new_ids bs = [next_TE_id g..next_TE_id g' - 1]"
proof (induction ops arbitrary: g as)
  case Nil
  then show ?case by auto
next
  case (Cons x xs)
  from LL_step_shape[OF Cons.prems, of x] obtain b g1 as1 where
    st: "LL_step g x = Some (b, g1)" and sh: "shape g1 as1" and
    c: "counted (next_TE_id g) b (next_TE_id g1)" by blast
  from Cons.IH[OF sh] obtain bs g' as' where
    r: "LL_run g1 xs = Some (bs, g')" and sh': "shape g' as'" and
    le: "next_TE_id g1 \<le> next_TE_id g'" and ids: "new_ids bs = [next_TE_id g1..next_TE_id g' - 1]"
    by blast
  from new_ids_Cons[OF c le ids] st r sh' show ?case by auto
qed

lemma shape_init: "shape (init_state m n) [0..<Suc m]"
  using seg_chain_heap[of 0 m] by (auto simp: shape_def init_state_def)

text \<open>
  In a linked genome every call that raises does so before the counter is touched
  (\<^verbatim>\<open>self.next_TE_id += 1\<close> is the last statement but two), so the ids of a session are
  \<open>1, 2, 3, \<dots>\<close> in this order.
\<close>

lemma upto_length_self: "1 \<le> c \<Longrightarrow> xs = [1..c - 1] \<Longrightarrow> xs = [1..int (length xs)]"
  by simp

lemma LL_ids_count_up_from_1:
  "\<exists>r. LL_session n ops = Some r \<and>
        new_ids (fst r) = [1..int (length (new_ids (fst r)))] \<and>
        sorted_wrt (<) (new_ids (fst r))"
proof -
  have s: "\<And>xs::int list. xs = [1..int (length xs)] \<Longrightarrow> sorted_wrt (<) xs"
    by (metis sorted_upto distinct_upto strict_sorted_iff)
  from LL_run_ids[OF shape_init, of "nat n" n ops] obtain bs g' where
    r: "LL_run (init_state (nat n) n) ops = Some (bs, g')" and
    le: "1 \<le> next_TE_id g'" and ids: "new_ids bs = [1..next_TE_id g' - 1]"
    by (auto simp: init_state_def)
  have b: "new_ids bs = [1..int (length (new_ids bs))]"
    using le ids by (rule upto_length_self)
  have "LL_session n ops = Some (bs, g')" by (simp add: LL_session_def LL_create_eq r)
  with b s show ?thesis by auto
qed

text \<open>
  In a list genome a call that returns an id returns the counter's value and advances
  the counter by one; a call that raises has either left the counter alone or advanced
  it by one (\<^verbatim>\<open>insert_te\<close> raising in line 123). So the ids of a session go up, none
  comes twice and none is below 1, but an id can be left out.
\<close>

lemma LG_insert_te_counter:
  "(case LG_insert_te g pos len of
      (Inl e, g') \<Rightarrow> te_id g' = te_id g \<or> te_id g' = te_id g + 1
    | (Inr k, g') \<Rightarrow> k = te_id g \<and> te_id g' = te_id g + 1)"
  by (auto simp: LG_insert_te_def Let_def split: sum.splits)

lemma LG_copy_te_counter:
  "(case LG_copy_te g t offset of
      (Inl e, g') \<Rightarrow> te_id g' = te_id g \<or> te_id g' = te_id g + 1
    | (Inr None, g') \<Rightarrow> g' = g
    | (Inr (Some k), g') \<Rightarrow> k = te_id g \<and> te_id g' = te_id g + 1)"
proof (cases "map_of (active_TE g) t")
  case None
  then show ?thesis by (simp add: LG_copy_te_def)
next
  case (Some len)
  show ?thesis
  proof (cases "list_index (nucleotide g) (Id t)")
    case (Inl e)
    with Some show ?thesis by (simp add: LG_copy_te_def)
  next
    case (Inr p)
    show ?thesis
    proof (cases "length (nucleotide g) = 0")
      case True
      with Some Inr show ?thesis by (simp add: LG_copy_te_def)
    next
      case False
      obtain r g' where
        i: "LG_insert_te g ((p + offset) mod int (length (nucleotide g))) len = (r, g')"
        by (cases "LG_insert_te g ((p + offset) mod int (length (nucleotide g))) len")
      with LG_insert_te_counter[of g "(p + offset) mod int (length (nucleotide g))" len]
      show ?thesis using Some Inr False by (cases r) (auto simp: LG_copy_te_def)
    qed
  qed
qed

lemma LG_step_counter:
  "te_id g \<le> te_id (snd (LG_step g x)) \<and>
   (\<forall>k. fst (LG_step g x) = New_id k \<longrightarrow>
        k = te_id g \<and> te_id (snd (LG_step g x)) = te_id g + 1)"
proof (cases x)
  case (Insert_te pos len)
  with LG_insert_te_counter[of g pos len] show ?thesis
    by (auto split: prod.splits sum.splits)
next
  case (Copy_te t offset)
  with LG_copy_te_counter[of g t offset] show ?thesis
    by (auto split: prod.splits sum.splits option.splits)
next
  case (Disable_te t)
  then show ?thesis by (auto simp: LG_disable_te_def)
qed auto

lemma LG_run_ids:
  "te_id g \<le> te_id (snd (LG_run g ops)) \<and>
   sorted_wrt (<) (new_ids (fst (LG_run g ops))) \<and>
   (\<forall>k\<in>set (new_ids (fst (LG_run g ops))). te_id g \<le> k \<and> k < te_id (snd (LG_run g ops)))"
proof (induction ops arbitrary: g)
  case Nil
  then show ?case by simp
next
  case (Cons x xs)
  obtain b g1 where st: "LG_step g x = (b, g1)" by (cases "LG_step g x")
  obtain bs g' where r: "LG_run g1 xs = (bs, g')" by (cases "LG_run g1 xs")
  from LG_step_counter[of g x] st have le1: "te_id g \<le> te_id g1"
    and new: "\<And>k. b = New_id k \<Longrightarrow> k = te_id g \<and> te_id g1 = te_id g + 1"
    by auto
  from Cons.IH[of g1] r have le: "te_id g1 \<le> te_id g'" and so: "sorted_wrt (<) (new_ids bs)"
    and rng: "\<And>k. k \<in> set (new_ids bs) \<Longrightarrow> te_id g1 \<le> k \<and> k < te_id g'"
    by auto
  have run: "LG_run g (x # xs) = (b # bs, g')" using st r by simp
  show ?case
  proof (cases b)
    case (New_id k)
    with new have k: "k = te_id g" and g1: "te_id g1 = te_id g + 1" by auto
    have "\<And>j. j \<in> set (new_ids bs) \<Longrightarrow> k < j \<and> k \<le> j \<and> j < te_id g'"
      using rng k g1 by fastforce
    with so le le1 k g1 show ?thesis
      unfolding run by (fastforce simp: New_id)
  next
    case (Raised e)
    with so le le1 rng show ?thesis unfolding run by fastforce
  next
    case No_copy
    with so le le1 rng show ?thesis unfolding run by fastforce
  next
    case Done
    with so le le1 rng show ?thesis unfolding run by fastforce
  next
    case (Ids xs)
    with so le le1 rng show ?thesis unfolding run by fastforce
  next
    case (Len l)
    with so le le1 rng show ?thesis unfolding run by fastforce
  next
    case (Str s)
    with so le le1 rng show ?thesis unfolding run by fastforce
  qed
qed

lemma LG_ids_increasing:
  "sorted_wrt (<) (new_ids (fst (LG_session n ops))) \<and>
   distinct (new_ids (fst (LG_session n ops))) \<and>
   (\<forall>k\<in>set (new_ids (fst (LG_session n ops))). 1 \<le> k)"
proof -
  have "te_id (LG_create n) = 1" by (simp add: LG_create_def)
  with LG_run_ids[of "LG_create n" ops]
  have s: "sorted_wrt (<) (new_ids (fst (LG_session n ops)))"
    and r: "\<forall>k\<in>set (new_ids (fst (LG_session n ops))). 1 \<le> k"
    by (auto simp: LG_session_def)
  from s have "distinct (new_ids (fst (LG_session n ops)))"
    by (simp add: strict_sorted_iff)
  with s r show ?thesis by blast
qed

section \<open>Concrete sessions\<close>

lemma LL_session_init: "LL_session n ops = LL_run (init_state (nat n) n) ops"
  by (simp add: LL_session_def LL_create_eq)

text \<open>Rules that run the loops of a linked genome on a concrete store.\<close>

lemma walk_step: "0 < k \<Longrightarrow> walk h k (Some a) = walk h (k - 1) (nxt (h a))"
  by (cases k) auto

lemma walk_stop: "0 < k \<Longrightarrow> walk h k None = Inl AttributeError"
  by (cases k) auto

lemma scan_step:
  "0 < k \<Longrightarrow> scan h k t (Some a) pos =
     (if node_te_id (h a) = t then Inr pos else scan h (k - 1) t (nxt (h a)) (pos + 1))"
  by (cases k) auto

lemma scan_stop: "0 < k \<Longrightarrow> scan h k t None pos = Inl AttributeError"
  by (cases k) auto

lemma retag_step:
  "0 < k \<Longrightarrow> retag h k (Some a) = retag (h(a := (h a)\<lparr>te := 2\<rparr>)) (k - 1) (nxt (h a))"
  by (cases k) auto

lemma retag_stop: "0 < k \<Longrightarrow> retag h k None = (h, Some AttributeError)"
  by (cases k) auto

lemma chain_heap_app:
  "chain_heap m a = (if a < m then \<lparr>te = 0, nxt = Some (Suc a), node_te_id = 0\<rparr> else Node 0)"
  by (simp add: chain_heap_def)

lemma spliced_app:
  "spliced h cur b k tid a =
     (if a = cur \<and> 0 < k then (h cur)\<lparr>nxt := Some b\<rparr>
      else if b \<le> a \<and> a < b + k
           then \<lparr>te = 1, nxt = (if Suc a < b + k then Some (Suc a) else nxt (h cur)),
                 node_te_id = tid\<rparr>
           else h a)"
  by (simp add: spliced_def)

lemma insert_nodes_exec:
  "cur < alloc g \<Longrightarrow>
   insert_nodes g cur tid len 0 k =
     g\<lparr>heap := spliced (heap g) cur (alloc g) k tid,
       alloc := alloc g + k,
       ll_active_TE := (if 0 < k then AList.update tid (alloc g, len) (ll_active_TE g)
                        else ll_active_TE g)\<rparr>"
  by (simp add: insert_nodes_eq)

lemmas exec = LL_session_init LL_insert_te_def LL_copy_te_def LL_disable_te_def
  place_te_def insert_nodes_exec walk_step walk_stop scan_step scan_stop retag_step retag_stop
  init_state_def chain_heap_app spliced_app str_loop.simps len_loop.simps LL_str_def LL_len_def
  node_char_def Node_def Let_def LL_active_tes_def

text \<open>
  C1. The claim: the same calls on \<^verbatim>\<open>ListGenome(n)\<close> and on \<^verbatim>\<open>LinkedListGenome(n)\<close> are
  observed alike. On \<^verbatim>\<open>n = 10\<close>, \<^verbatim>\<open>insert_te(0, 3)\<close> and then \<^verbatim>\<open>str\<close>, the list genome
  writes the TE at position 0 and the linked genome writes it after its head node,
  at position 1: \<^verbatim>\<open>range(0, position - 1)\<close> is empty for position 0 as it is for
  position 1. A following \<^verbatim>\<open>insert_te(1, 2)\<close> then splits TE 1 after its first
  position in the list genome and lands in front of it in the linked genome.
\<close>

theorem realizations_differ_at_position_0:
  "fst (LG_session 10 [Insert_te 0 3, Render]) = [New_id 1, Str ''AAA----------''] \<and>
   map_option fst (LL_session 10 [Insert_te 0 3, Render]) =
     Some [New_id 1, Str ''-AAA---------''] \<and>
   fst (LG_session 10 [Insert_te 0 3, Insert_te 1 2, Active_tes, Render]) =
     [New_id 1, New_id 2, Ids [2], Str ''xAAxx----------''] \<and>
   map_option fst (LL_session 10 [Insert_te 0 3, Insert_te 1 2, Active_tes, Render]) =
     Some [New_id 1, New_id 2, Ids [2], Str ''-AAxxx---------'']"
proof (intro conjI)
  show "fst (LG_session 10 [Insert_te 0 3, Render]) = [New_id 1, Str ''AAA----------'']"
    by code_simp
  show "map_option fst (LL_session 10 [Insert_te 0 3, Render]) =
     Some [New_id 1, Str ''-AAA---------'']"
    by (simp add: exec del: insert_nodes.simps)
  show "fst (LG_session 10 [Insert_te 0 3, Insert_te 1 2, Active_tes, Render]) =
     [New_id 1, New_id 2, Ids [2], Str ''xAAxx----------'']"
    by code_simp
  show "map_option fst (LL_session 10 [Insert_te 0 3, Insert_te 1 2, Active_tes, Render]) =
     Some [New_id 1, New_id 2, Ids [2], Str ''-AAxxx---------'']"
    by (simp add: exec del: insert_nodes.simps)
qed

text \<open>
  C2. The claim: \<^verbatim>\<open>disable_te\<close> of an id that is not active changes nothing and raises
  nothing, in both classes. \<^verbatim>\<open>ListGenome.disable_te\<close> tests \<^verbatim>\<open>te in self.active_TE\<close>;
  \<^verbatim>\<open>LinkedListGenome.disable_te\<close> reads \<^verbatim>\<open>self.active_TE[te]\<close> without the test, and
  \<^verbatim>\<open>disable_te(99)\<close> on a fresh genome raises \<^verbatim>\<open>KeyError\<close>.
\<close>

theorem linked_disable_te_of_unknown_id_raises:
  "fst (LG_session 10 [Disable_te 99, Active_tes, Length_of, Render]) =
     [Done, Ids [], Len 10, Str ''----------''] \<and>
   map_option fst (LL_session 10 [Disable_te 99, Active_tes, Length_of, Render]) =
     Some [Raised KeyError, Ids [], Len 10, Str ''----------'']"
proof
  show "fst (LG_session 10 [Disable_te 99, Active_tes, Length_of, Render]) =
     [Done, Ids [], Len 10, Str ''----------'']"
    by code_simp
  show "map_option fst (LL_session 10 [Disable_te 99, Active_tes, Length_of, Render]) =
     Some [Raised KeyError, Ids [], Len 10, Str ''----------'']"
    by (simp add: exec del: insert_nodes.simps)
qed

text \<open>
  C3. The claim: no call raises, whatever the integers it is given.
  \<^verbatim>\<open>ListGenome.insert_te\<close> indexes \<^verbatim>\<open>self.nucleotide[pos]\<close> without taking \<open>pos\<close> modulo
  the length, so \<^verbatim>\<open>insert_te(10, 1)\<close> on a genome of 10 positions raises \<^verbatim>\<open>IndexError\<close>;
  \<^verbatim>\<open>LinkedListGenome.copy_te\<close> walks \<^verbatim>\<open>pos + (offset % self.length)\<close> nodes, which can
  leave the chain: with TE 1 at position 5 of 11, \<^verbatim>\<open>copy_te(1, 8)\<close> raises
  \<^verbatim>\<open>AttributeError\<close>.
\<close>

theorem calls_that_raise:
  "fst (LG_session 10 [Insert_te 10 1]) = [Raised IndexError] \<and>
   map_option fst (LL_session 10 [Insert_te 5 1, Length_of, Copy_te 1 8]) =
     Some [New_id 1, Len 11, Raised AttributeError]"
proof
  show "fst (LG_session 10 [Insert_te 10 1]) = [Raised IndexError]"
    by code_simp
  show "map_option fst (LL_session 10 [Insert_te 5 1, Length_of, Copy_te 1 8]) =
     Some [New_id 1, Len 11, Raised AttributeError]"
    by (simp add: exec del: insert_nodes.simps)
qed

text \<open>
  C4, as the claim states it, fails: after \<^verbatim>\<open>insert_te(2, 3)\<close> the genome has 13
  positions and its rendering has 13 characters, not the 10 of \<^verbatim>\<open>"--AAA-----"\<close>.
\<close>

theorem scenario_render_is_not_10_characters:
  "\<not> (fst (LG_session 10 [Render, Insert_te 2 3, Render, Length_of]) =
        [Str ''----------'', New_id 1, Str ''--AAA-----'', Len 13] \<and>
      map_option fst (LL_session 10 [Render, Insert_te 2 3, Render, Length_of]) =
        Some [Str ''----------'', New_id 1, Str ''--AAA-----'', Len 13])"
proof -
  have "fst (LG_session 10 [Render, Insert_te 2 3, Render, Length_of]) \<noteq>
        [Str ''----------'', New_id 1, Str ''--AAA-----'', Len 13]"
    by code_simp
  then show ?thesis by simp
qed

text \<open>
  C4, amended: from \<^verbatim>\<open>create(10)\<close> the rendering is \<^verbatim>\<open>"----------"\<close>; \<^verbatim>\<open>insert_te(2, 3)\<close>
  returns 1, the rendering becomes \<^verbatim>\<open>"--AAA--------"\<close> and the length 13, in both
  classes.
\<close>

theorem scenario_insert_2_3:
  "fst (LG_session 10 [Render, Insert_te 2 3, Render, Length_of]) =
     [Str ''----------'', New_id 1, Str ''--AAA--------'', Len 13] \<and>
   map_option fst (LL_session 10 [Render, Insert_te 2 3, Render, Length_of]) =
     Some [Str ''----------'', New_id 1, Str ''--AAA--------'', Len 13]"
proof
  show "fst (LG_session 10 [Render, Insert_te 2 3, Render, Length_of]) =
     [Str ''----------'', New_id 1, Str ''--AAA--------'', Len 13]"
    by code_simp
  show "map_option fst (LL_session 10 [Render, Insert_te 2 3, Render, Length_of]) =
     Some [Str ''----------'', New_id 1, Str ''--AAA--------'', Len 13]"
    by (simp add: exec del: insert_nodes.simps)
qed

text \<open>
  C5. The claim: a TE whose position is the destination of an insertion or of a copy
  is disabled. With TE 1 at position 6 and TE 2 at position 2 of 12, \<^verbatim>\<open>copy_te(1, 8)\<close>
  has the destination \<open>(6 + 8) mod 12 = 2\<close>. The list genome disables TE 2 and writes
  TE 3 there; the linked genome walks \<open>6 + 8 mod 12 = 14\<close> nodes, raises
  \<^verbatim>\<open>AttributeError\<close> and leaves TE 2 active.
\<close>

theorem linked_copy_onto_active_te_leaves_it_active:
  "fst (LG_session 10 [Insert_te 5 1, Insert_te 2 1, Render, Copy_te 1 8, Active_tes, Render]) =
     [New_id 1, New_id 2, Str ''--A---A-----'', New_id 3, Ids [1, 3], Str ''--Ax---A-----''] \<and>
   map_option fst
     (LL_session 10 [Insert_te 5 1, Insert_te 2 1, Render, Copy_te 1 8, Active_tes, Render]) =
     Some [New_id 1, New_id 2, Str ''--A---A-----'', Raised AttributeError, Ids [1, 2],
           Str ''--A---A-----'']"
proof
  show "fst (LG_session 10 [Insert_te 5 1, Insert_te 2 1, Render, Copy_te 1 8, Active_tes, Render]) =
     [New_id 1, New_id 2, Str ''--A---A-----'', New_id 3, Ids [1, 3], Str ''--Ax---A-----'']"
    by code_simp
  show "map_option fst
     (LL_session 10 [Insert_te 5 1, Insert_te 2 1, Render, Copy_te 1 8, Active_tes, Render]) =
     Some [New_id 1, New_id 2, Str ''--A---A-----'', Raised AttributeError, Ids [1, 2],
           Str ''--A---A-----'']"
    by (simp add: exec del: insert_nodes.simps)
qed

text \<open>
  C6. The claim: \<^verbatim>\<open>copy_te(te, offset)\<close> does what \<^verbatim>\<open>insert_te((pos + offset) mod length, len)\<close>
  does. In the linked genome with TE 1 at position 5 of 11, \<^verbatim>\<open>insert_te((5 + 8) mod 11, 1)\<close>
  writes TE 2 at position 2 and \<^verbatim>\<open>copy_te(1, 8)\<close> raises; \<^verbatim>\<open>insert_te((5 + 6) mod 11, 1)\<close>
  writes TE 2 after the head and \<^verbatim>\<open>copy_te(1, 6)\<close> writes it behind the last position.
\<close>

theorem linked_copy_te_is_not_insert_te_at_destination:
  "map_option fst (LL_session 10 [Insert_te 5 1, Insert_te ((5 + 8) mod 11) 1, Render]) =
     Some [New_id 1, New_id 2, Str ''--A---A-----''] \<and>
   map_option fst (LL_session 10 [Insert_te 5 1, Copy_te 1 8, Render]) =
     Some [New_id 1, Raised AttributeError, Str ''-----A-----''] \<and>
   map_option fst (LL_session 10 [Insert_te 5 1, Insert_te ((5 + 6) mod 11) 1, Render]) =
     Some [New_id 1, New_id 2, Str ''-A----A-----''] \<and>
   map_option fst (LL_session 10 [Insert_te 5 1, Copy_te 1 6, Render]) =
     Some [New_id 1, New_id 2, Str ''-----A-----A'']"
  by (simp add: exec del: insert_nodes.simps)

text \<open>
  C7. \<^verbatim>\<open>copy_te\<close> of an id that is not in \<^verbatim>\<open>active_tes()\<close> returns \<^verbatim>\<open>None\<close> and leaves the
  genome as it was, in both classes: every field is unchanged, so the length, the
  active ids, the rendering and the id counter are.
\<close>

theorem copy_te_of_inactive_id_is_a_no_op:
  assumes "t \<notin> set (LG_active_tes g)" and "t \<notin> set (LL_active_tes h)"
  shows "LG_copy_te g t offset = (Inr None, g) \<and> LL_copy_te h t offset = (Inr None, h)"
proof -
  have "map_of (active_TE g) t = None"
    using assms(1) by (simp add: LG_active_tes_def map_of_eq_None_iff)
  moreover have "map_of (ll_active_TE h) t = None"
    using assms(2) by (simp add: LL_active_tes_def map_of_eq_None_iff)
  ultimately show ?thesis by (simp add: LG_copy_te_def LL_copy_te_def)
qed

theorem copy_te_of_inactive_id_witness:
  "LG_copy_te (snd (LG_session 10 [Insert_te 2 3, Insert_te 2 2])) 1 5 =
     (Inr None, snd (LG_session 10 [Insert_te 2 3, Insert_te 2 2])) \<and>
   (\<exists>h. map_option snd (LL_session 10 [Insert_te 2 3, Insert_te 2 2]) = Some h \<and>
        LL_active_tes h = [2] \<and> LL_copy_te h 1 5 = (Inr None, h))"
proof -
  have a: "1 \<notin> set (LG_active_tes (snd (LG_session 10 [Insert_te 2 3, Insert_te 2 2])))"
    by code_simp
  have "map_option (\<lambda>r. LL_active_tes (snd r)) (LL_session 10 [Insert_te 2 3, Insert_te 2 2]) =
          Some [2]"
    by (simp add: exec del: insert_nodes.simps)
  then obtain h where h: "map_option snd (LL_session 10 [Insert_te 2 3, Insert_te 2 2]) = Some h"
    and k: "LL_active_tes h = [2]"
    by (cases "LL_session 10 [Insert_te 2 3, Insert_te 2 2]") auto
  from k have b: "1 \<notin> set (LL_active_tes h)" by simp
  from copy_te_of_inactive_id_is_a_no_op[OF a b, of 5] h k show ?thesis by blast
qed

text \<open>
  C8. The claim: the ids that successful \<^verbatim>\<open>insert_te\<close> and \<^verbatim>\<open>copy_te\<close> calls return start
  at 1, go up and never come twice. \<^verbatim>\<open>ListGenome.insert_te\<close> advances \<^verbatim>\<open>self.te_id\<close> in
  line 121 and writes \<^verbatim>\<open>active_TE[te_id]\<close> in line 122, before the list multiplication
  of line 123 can raise: on a genome of 10, \<^verbatim>\<open>insert_te(0, 2**63)\<close> raises
  \<^verbatim>\<open>OverflowError\<close> and has used up id 1, so the first id that a call returns is 2, and
  \<^verbatim>\<open>active_tes()\<close> holds the id 1 that no call returned.
\<close>

theorem list_insert_te_that_raises_uses_up_an_id:
  "fst (LG_session 10 [Insert_te 0 9223372036854775808, Insert_te 0 1, Active_tes, Render]) =
     [Raised OverflowError, New_id 2, Ids [1, 2], Str ''A----------''] \<and>
   new_ids (fst (LG_session 10
     [Insert_te 0 9223372036854775808, Insert_te 0 1, Active_tes, Render])) = [2]"
  by code_simp

section \<open>The invariant of a linked genome: disabling\<close>

lemma run_nodes_length_le: "length (run_nodes h n p) \<le> n"
proof (induction n arbitrary: p)
  case 0
  then show ?case by simp
next
  case (Suc n)
  then show ?case by (cases p) auto
qed

lemma run_nodes_spliced:
  assumes "length (run_nodes h n p) = n"
    and "\<forall>a\<in>set (run_nodes h n p). a < b \<and> te (h a) = 1"
    and "nxt (h cur) = Some c" and "te (h c) \<noteq> 1"
  shows "run_nodes (spliced h cur b k tid) n p = run_nodes h n p"
  using assms(1,2)
proof (induction n arbitrary: p)
  case 0
  then show ?case by simp
next
  case (Suc n)
  from Suc.prems(1) obtain a where p: "p = Some a" by (cases p) auto
  from Suc.prems p have len: "length (run_nodes h n (nxt (h a))) = n"
    and all: "\<forall>x\<in>set (run_nodes h n (nxt (h a))). x < b \<and> te (h x) = 1"
    and a: "a < b" by auto
  show ?case
  proof (cases "a = cur \<and> 0 < k")
    case False
    then have "nxt (spliced h cur b k tid a) = nxt (h a)" using a by (auto simp: spliced_def)
    with Suc.IH[OF len all] p show ?thesis by simp
  next
    case True
    have "n = 0"
    proof (rule ccontr)
      assume "n \<noteq> 0"
      then obtain m where m: "n = Suc m" by (cases n) auto
      with True assms(3) have "c \<in> set (run_nodes h n (nxt (h a)))" by simp
      with all assms(4) show False by auto
    qed
    with p show ?thesis by simp
  qed
qed

lemma run_nodes_new:
  "cur < b \<Longrightarrow> j \<le> k \<Longrightarrow>
   run_nodes (spliced h cur b k tid) (k - j) (Some (b + j)) = [b + j..<b + k]"
proof (induction "k - j" arbitrary: j)
  case 0
  then show ?case by simp
next
  case (Suc d)
  then have lt: "j < k" by simp
  then have l: "[b + j..<b + k] = (b + j) # [b + Suc j..<b + k]" by (simp add: upt_conv_Cons)
  have kj: "k - j = Suc (k - Suc j)" using lt by simp
  have ih: "run_nodes (spliced h cur b k tid) (k - Suc j) (Some (b + Suc j)) = [b + Suc j..<b + k]"
  proof (rule Suc.hyps(1))
    show "d = k - Suc j" using Suc.hyps(2) by simp
    show "cur < b" by (rule Suc.prems(1))
    show "Suc j \<le> k" using lt by simp
  qed
  show ?case
  proof (cases "Suc j < k")
    case True
    then have "nxt (spliced h cur b k tid (b + j)) = Some (b + Suc j)"
      using Suc.prems by (simp add: spliced_def)
    with ih show ?thesis by (simp add: kj l)
  next
    case False
    then have e: "Suc j = k" using lt by simp
    then have "k - Suc j = 0" by simp
    then show ?thesis using e by (simp add: kj l)
  qed
qed

lemma has_key_delete: "has_key (AList.delete t d) k = (k \<noteq> t \<and> has_key d k)"
  by (simp add: has_key_def delete_conv')

lemma map_of_delete: "map_of (AList.delete t d) k = (if k = t then None else map_of d k)"
  by (simp add: delete_conv')

lemma map_of_update: "map_of (AList.update t v d) k = (if k = t then Some v else map_of d k)"
  by (simp add: update_conv')

lemma has_key_update: "has_key (AList.update t v d) k = (k = t \<or> has_key d k)"
  by (simp add: has_key_def map_of_update)

lemma has_key_set: "has_key d k = (k \<in> set (map fst d))"
  by (simp add: has_key_def map_of_eq_None_iff)

lemma inv_disable:
  assumes inv: "LL_inv g as" and key: "map_of (ll_active_TE g) t = Some (anchor, len)"
  shows "\<exists>g'. LL_disable_te g t = (Inr (), g') \<and> LL_inv g' as \<and>
           next_TE_id g' = next_TE_id g \<and> ll_length g' = ll_length g \<and> alloc g' = alloc g \<and>
           head g' = head g \<and>
           ll_active_TE g' = AList.delete t (ll_active_TE g) \<and>
           (\<forall>a. nxt (heap g' a) = nxt (heap g a) \<and> node_te_id (heap g' a) = node_te_id (heap g a)) \<and>
           (\<forall>a. te (heap g' a) =
                  (if a \<in> set (run_nodes (heap g) (nat len) (Some anchor)) then 2 else te (heap g a)))"
proof -
  define R where "R = run_nodes (heap g) (nat len) (Some anchor)"
  define h' where "h' = (\<lambda>a. if a \<in> set R then (heap g a)\<lparr>te := 2\<rparr> else heap g a)"
  define g' where "g' = g\<lparr>heap := h', ll_active_TE := AList.delete t (ll_active_TE g)\<rparr>"
  from inv key have ok: "key_ok g t anchor len" by (auto simp: LL_inv_def)
  then have lenR: "length R = nat len"
    and R: "\<And>a. a \<in> set R \<Longrightarrow> te (heap g a) = 1 \<and> node_te_id (heap g a) = t"
    by (auto simp: key_ok_def R_def)
  have eq: "LL_disable_te g t = (Inr (), g')"
    using key lenR by (simp add: LL_disable_te_def retag_eq R_def[symmetric] h'_def g'_def)
  have nx: "\<And>a. nxt (h' a) = nxt (heap g a)" and ids: "\<And>a. node_te_id (h' a) = node_te_id (heap g a)"
    and tes: "\<And>a. te (h' a) = (if a \<in> set R then 2 else te (heap g a))"
    by (auto simp: h'_def)
  have runs: "\<And>n p. run_nodes h' n p = run_nodes (heap g) n p"
    by (rule run_nodes_cong) (rule nx)
  have sh: "shape g' as"
  proof -
    have "seg h' (Some (head g)) as None = seg (heap g) (Some (head g)) as None"
      by (rule seg_cong) (rule nx)
    with inv show ?thesis by (simp add: shape_def LL_inv_def g'_def)
  qed
  have keys: "key_ok g' k a l" if m: "map_of (ll_active_TE g') k = Some (a, l)" for k a l
  proof -
    from m have kt: "k \<noteq> t" and m': "map_of (ll_active_TE g) k = Some (a, l)"
      by (auto simp: g'_def map_of_delete split: if_splits)
    with inv have o: "key_ok g k a l" by (auto simp: LL_inv_def)
    have "x \<notin> set R" if "x \<in> set (run_nodes (heap g) (nat l) (Some a))" for x
      using o R[of x] kt that by (auto simp: key_ok_def)
    with o show ?thesis by (auto simp: key_ok_def g'_def runs tes ids)
  qed
  have nodes: "node_ok g' a" if a: "a \<in> set as" for a
  proof -
    from inv a have n: "node_ok g a" by (auto simp: LL_inv_def)
    show ?thesis
    proof (cases "a \<in> set R")
      case True
      with R[of a] n have "node_te_id (heap g a) = t" and "node_te_id (heap g a) \<noteq> 0"
        by (auto simp: node_ok_def)
      with True n show ?thesis
        by (auto simp: node_ok_def g'_def tes ids has_key_delete in_run_def map_of_delete)
    next
      case False
      have nt: "node_te_id (heap g a) \<noteq> t" if "te (heap g a) = 1"
      proof
        assume "node_te_id (heap g a) = t"
        with n that key have "a \<in> set R" by (auto simp: node_ok_def in_run_def R_def)
        with False show False by simp
      qed
      show ?thesis
      proof (cases "te (heap g a) = 1")
        case True
        with nt have "node_te_id (heap g a) \<noteq> t" by simp
        with True False n show ?thesis
          by (auto simp: node_ok_def g'_def tes ids has_key_delete in_run_def map_of_delete runs
              split: option.splits)
      next
        case F: False
        with False n show ?thesis
          by (auto simp: node_ok_def g'_def tes ids has_key_delete in_run_def map_of_delete runs
              split: option.splits)
      qed
    qed
  qed
  have "LL_inv g' as"
    unfolding LL_inv_def
  proof (intro conjI allI impI ballI)
    show "shape g' as" by (rule sh)
    show "ll_length g' \<le> int (length as) - 1" using inv by (simp add: LL_inv_def g'_def)
    show "1 \<le> next_TE_id g'" using inv by (simp add: LL_inv_def g'_def)
    show "key_ok g' k a l" if "map_of (ll_active_TE g') k = Some (a, l)" for k a l
      using that by (rule keys)
    show "node_ok g' a" if "a \<in> set as" for a using that by (rule nodes)
  qed
  with eq show ?thesis
    by (intro exI[of _ g']) (simp add: g'_def nx ids tes R_def)
qed

section \<open>The invariant of a linked genome: writing a TE\<close>

lemma inv_collide:
  assumes inv: "LL_inv g as" and c: "c \<in> set as"
  shows "\<exists>g1. (if te (heap g c) = 1 then LL_disable_te g (node_te_id (heap g c)) else (Inr (), g))
                = (Inr (), g1) \<and>
           LL_inv g1 as \<and> te (heap g1 c) \<noteq> 1 \<and>
           next_TE_id g1 = next_TE_id g \<and> ll_length g1 = ll_length g \<and> alloc g1 = alloc g \<and>
           head g1 = head g \<and>
           ll_active_TE g1 =
             (if te (heap g c) = 1 then AList.delete (node_te_id (heap g c)) (ll_active_TE g)
              else ll_active_TE g) \<and>
           (\<forall>a. nxt (heap g1 a) = nxt (heap g a) \<and> node_te_id (heap g1 a) = node_te_id (heap g a))"
proof (cases "te (heap g c) = 1")
  case False
  with inv show ?thesis by auto
next
  case True
  from inv c have n: "node_ok g c" by (auto simp: LL_inv_def)
  with True obtain anchor len where
    key: "map_of (ll_active_TE g) (node_te_id (heap g c)) = Some (anchor, len)" and
    r: "c \<in> set (run_nodes (heap g) (nat len) (Some anchor))"
    by (auto simp: node_ok_def in_run_def split: option.splits)
  from inv_disable[OF inv key] r True show ?thesis by auto
qed

lemma inv_place:
  assumes inv: "LL_inv g as" and i: "Suc i < length as"
  shows "\<exists>g' as'. place_te g (Some (as ! i)) (next_TE_id g) len = (Inr (next_TE_id g), g') \<and>
           LL_inv g' as' \<and> next_TE_id g' = next_TE_id g + 1 \<and>
           ll_length g' = ll_length g + len \<and>
           as' = take (Suc i) as @ [alloc g..<alloc g + nat len] @ drop (Suc i) as \<and>
           ll_active_TE g' =
             (if 0 < len
              then AList.update (next_TE_id g) (alloc g, len)
                     (if te (heap g (as ! Suc i)) = 1
                      then AList.delete (node_te_id (heap g (as ! Suc i))) (ll_active_TE g)
                      else ll_active_TE g)
              else (if te (heap g (as ! Suc i)) = 1
                    then AList.delete (node_te_id (heap g (as ! Suc i))) (ll_active_TE g)
                    else ll_active_TE g))"
proof -
  define ins where "ins = as ! i"
  define c where "c = as ! Suc i"
  define tid where "tid = next_TE_id g"
  define k where "k = nat len"
  define b where "b = alloc g"
  from inv have sh: "shape g as" by (simp add: LL_inv_def)
  then have sg: "seg (heap g) (Some (head g)) as None" and lt: "\<forall>a\<in>set as. a < alloc g"
    by (auto simp: shape_def)
  have nx: "nxt (heap g ins) = Some c"
    using seg_nth_nxt[OF sg, of i] i by (simp add: ins_def c_def)
  have cin: "c \<in> set as" and iin: "ins \<in> set as" using i by (auto simp: c_def ins_def)
  from inv_collide[OF inv cin] obtain g1 where
    r1: "(if te (heap g c) = 1 then LL_disable_te g (node_te_id (heap g c)) else (Inr (), g))
           = (Inr (), g1)" and
    inv1: "LL_inv g1 as" and te1: "te (heap g1 c) \<noteq> 1" and
    f1: "next_TE_id g1 = next_TE_id g" "ll_length g1 = ll_length g" "alloc g1 = alloc g"
        "head g1 = head g" and
    act1: "ll_active_TE g1 =
             (if te (heap g c) = 1 then AList.delete (node_te_id (heap g c)) (ll_active_TE g)
              else ll_active_TE g)" and
    nx1: "\<And>a. nxt (heap g1 a) = nxt (heap g a)"
    by blast
  define h1 where "h1 = heap g1"
  define h' where "h' = spliced h1 ins b k tid"
  define d' where "d' = (if 0 < k then AList.update tid (b, len) (ll_active_TE g1)
                         else ll_active_TE g1)"
  define g' where "g' = g1\<lparr>heap := h', alloc := b + k, ll_active_TE := d',
                         next_TE_id := tid + 1, ll_length := ll_length g + len\<rparr>"
  define as' where "as' = take i as @ ins # [b..<b + k] @ drop (Suc i) as"
  have ib: "ins < b" using lt iin by (simp add: b_def)
  have as: "as = take i as @ ins # drop (Suc i) as"
    using i by (simp add: ins_def id_take_nth_drop[symmetric])
  have eq: "place_te g (Some ins) tid len = (Inr tid, g')"
  proof -
    have "insert_nodes g1 ins tid len 0 (nat len) =
            g1\<lparr>heap := h', alloc := b + k, ll_active_TE := d'\<rparr>"
      using ib by (simp add: insert_nodes_eq f1 b_def h'_def h1_def d'_def k_def)
    then show ?thesis
      using nx r1 by (simp add: place_te_def g'_def f1 tid_def)
  qed
  from inv1 have sg1: "seg h1 (Some (head g)) as None" and tid1: "1 \<le> tid"
    and ll1: "ll_length g \<le> int (length as) - 1"
    and keys1: "\<And>key a l. map_of (ll_active_TE g1) key = Some (a, l) \<Longrightarrow> key_ok g1 key a l"
    and nodes1: "\<And>a. a \<in> set as \<Longrightarrow> node_ok g1 a"
    by (auto simp: LL_inv_def shape_def f1 h1_def tid_def)
  have nxc: "nxt (h1 ins) = Some c" using nx nx1 by (simp add: h1_def)
  have tec: "te (h1 c) \<noteq> 1" using te1 by (simp add: h1_def)
  have old: "te (h' a) = te (h1 a) \<and> node_te_id (h' a) = node_te_id (h1 a)" if "a < b" for a
    using that by (auto simp: h'_def spliced_def)
  have new: "te (h' a) = 1 \<and> node_te_id (h' a) = tid" if "b \<le> a" "a < b + k" for a
    using that ib by (auto simp: h'_def spliced_def)
  have runs_new: "run_nodes h' k (Some b) = [b..<b + k]"
    using run_nodes_new[OF ib, of 0 k h1 tid] by (simp add: h'_def)
  have runs_old: "run_nodes h' (nat l) (Some a) = run_nodes h1 (nat l) (Some a)"
    if "key_ok g1 key a l" for key a l
    unfolding h'_def
  proof (rule run_nodes_spliced[OF _ _ nxc tec])
    show "length (run_nodes h1 (nat l) (Some a)) = nat l"
      using that by (simp add: key_ok_def h1_def)
    show "\<forall>x\<in>set (run_nodes h1 (nat l) (Some a)). x < b \<and> te (h1 x) = 1"
      using that by (simp add: key_ok_def h1_def f1 b_def)
  qed
  have sh': "shape g' as'"
  proof -
    have "seg h' (Some (head g)) (take i as @ ins # [b..<b + k] @ drop (Suc i) as) None"
      unfolding h'_def
    proof (rule seg_spliced)
      show "seg h1 (Some (head g)) (take i as @ ins # drop (Suc i) as) None"
        using sg1 as by simp
      show "\<forall>a\<in>set (take i as @ ins # drop (Suc i) as). a < b"
        using lt as by (simp add: b_def)
    qed
    moreover have "\<forall>a\<in>set as'. a < b + k"
    proof
      fix a assume "a \<in> set as'"
      then have "a \<in> set as \<or> a < b + k"
        using iin by (auto simp: as'_def dest: in_set_takeD in_set_dropD)
      with lt show "a < b + k" by (auto simp: b_def intro: trans_less_add1)
    qed
    ultimately show ?thesis by (auto simp: shape_def g'_def f1 as'_def)
  qed
  have keys': "key_ok g' key a l" if m: "map_of d' key = Some (a, l)" for key a l
  proof (cases "key = tid \<and> 0 < k")
    case True
    with m have al: "a = b" "l = len" by (auto simp: d'_def map_of_update)
    from True have l1: "1 \<le> len" and kn: "nat len = k" by (auto simp: k_def)
    with al True new show ?thesis
      by (auto simp: key_ok_def g'_def runs_new)
  next
    case False
    with m have m1: "map_of (ll_active_TE g1) key = Some (a, l)"
      by (auto simp: d'_def map_of_update split: if_splits)
    then have o: "key_ok g1 key a l" by (rule keys1)
    have "x < b + k \<and> te (h' x) = 1 \<and> node_te_id (h' x) = key"
      if "x \<in> set (run_nodes h1 (nat l) (Some a))" for x
    proof -
      from o that have "x < b" and "te (h1 x) = 1" and "node_te_id (h1 x) = key"
        by (auto simp: key_ok_def h1_def f1 b_def)
      with old[of x] show ?thesis by simp
    qed
    with o show ?thesis
      by (auto simp: key_ok_def g'_def runs_old[OF o] h1_def f1 tid_def)
  qed
  have nodes': "node_ok g' a" if a: "a \<in> set as'" for a
  proof (cases "a \<in> set as")
    case True
    then have n: "node_ok g1 a" by (rule nodes1)
    from True lt have ab: "a < b" by (simp add: b_def)
    from n have idt: "node_te_id (h1 a) \<noteq> tid"
      by (auto simp: node_ok_def h1_def f1 tid_def)
    have r: "in_run g' a = in_run g1 a"
    proof (cases "map_of (ll_active_TE g1) (node_te_id (h1 a))")
      case None
      with idt show ?thesis
        using old[OF ab] by (simp add: in_run_def g'_def d'_def map_of_update h1_def)
    next
      case (Some al)
      obtain x l where al: "al = (x, l)" by (cases al)
      from keys1 Some al have o: "key_ok g1 (node_te_id (h1 a)) x l" by simp
      from Some al idt show ?thesis
        using old[OF ab] runs_old[OF o]
        by (simp add: in_run_def g'_def d'_def map_of_update h1_def)
    qed
    from n idt show ?thesis
      using old[OF ab] r
      by (auto simp: node_ok_def g'_def d'_def has_key_update h1_def f1 tid_def)
  next
    case False
    with a iin have ab: "b \<le> a" "a < b + k"
      by (auto simp: as'_def dest: in_set_takeD in_set_dropD)
    then have k0: "0 < k" by simp
    have "in_run g' a"
      using new[OF ab] ab k0
      by (simp add: in_run_def g'_def d'_def map_of_update k_def[symmetric] runs_new)
    with new[OF ab] tid1 k0 show ?thesis
      by (auto simp: node_ok_def g'_def d'_def has_key_update)
  qed
  have "LL_inv g' as'"
    unfolding LL_inv_def
  proof (intro conjI allI impI ballI)
    show "shape g' as'" by (rule sh')
    show "ll_length g' \<le> int (length as') - 1"
      using ll1 i by (simp add: g'_def as'_def k_def)
    show "1 \<le> next_TE_id g'" using tid1 by (simp add: g'_def)
    show "key_ok g' key a l" if "map_of (ll_active_TE g') key = Some (a, l)" for key a l
      using that keys' by (simp add: g'_def)
    show "node_ok g' a" if "a \<in> set as'" for a using that by (rule nodes')
  qed
  moreover have "as' = take (Suc i) as @ [alloc g..<alloc g + nat len] @ drop (Suc i) as"
    using i by (simp add: as'_def ins_def take_Suc_conv_app_nth b_def k_def)
  moreover have "0 < k \<longleftrightarrow> 0 < len" by (simp add: k_def)
  ultimately show ?thesis
    using eq
    by (intro exI[of _ g'] exI[of _ as'])
      (simp add: g'_def d'_def act1 ins_def c_def tid_def b_def f1)
qed

section \<open>The invariant of a linked genome: sessions\<close>

lemma seg_nonempty: "seg h (Some a) as None \<Longrightarrow> as \<noteq> []"
  by (cases as) auto

lemma inv_walk_place:
  assumes inv: "LL_inv g as"
  shows "\<exists>r g' as'.
           (case walk (heap g) i (Some (head g)) of
              Inl e \<Rightarrow> (Inl e, g)
            | Inr p \<Rightarrow> place_te g p (next_TE_id g) len) = (r, g') \<and>
           LL_inv g' as' \<and> (g' = g \<or> ll_length g' = ll_length g + len)"
proof -
  from inv have sg: "seg (heap g) (Some (head g)) as None"
    by (auto simp: LL_inv_def shape_def)
  show ?thesis
  proof (cases "Suc i < length as")
    case True
    then have w: "walk (heap g) i (Some (head g)) = Inr (Some (as ! i))"
      using walk_seg[OF sg, of i] by simp
    from inv_place[OF inv True, where len=len] obtain g' as' where
      "place_te g (Some (as ! i)) (next_TE_id g) len = (Inr (next_TE_id g), g')" and
      "LL_inv g' as'" and "ll_length g' = ll_length g + len"
      by blast
    with w show ?thesis by auto
  next
    case F: False
    have "\<exists>r. (case walk (heap g) i (Some (head g)) of
              Inl e \<Rightarrow> (Inl e, g)
            | Inr p \<Rightarrow> place_te g p (next_TE_id g) len) = (r, g)"
    proof (cases "i < length as")
      case True
      with F have "Suc i = length as" by simp
      with seg_nth_nxt[OF sg True] have "nxt (heap g (as ! i)) = None" by simp
      moreover have "walk (heap g) i (Some (head g)) = Inr (Some (as ! i))"
        using walk_seg[OF sg, of i] True by simp
      ultimately show ?thesis by (simp add: place_te_def)
    next
      case G: False
      then have "walk (heap g) i (Some (head g)) = Inr None \<or>
                 walk (heap g) i (Some (head g)) = Inl AttributeError"
        using walk_seg[OF sg, of i] by auto
      then show ?thesis by (auto simp: place_te_def)
    qed
    with inv show ?thesis by blast
  qed
qed

lemma inv_insert_te:
  assumes inv: "LL_inv g as" and l0: "0 < ll_length g"
  shows "\<exists>g' as'. LL_insert_te g pos len = (Inr (next_TE_id g), g') \<and> LL_inv g' as' \<and>
           next_TE_id g' = next_TE_id g + 1 \<and> ll_length g' = ll_length g + len \<and>
           (len \<le> 0 \<longrightarrow> (\<forall>k. has_key (ll_active_TE g') k \<longrightarrow> has_key (ll_active_TE g) k))"
proof -
  define i where "i = nat (pos mod ll_length g - 1)"
  from inv have sg: "seg (heap g) (Some (head g)) as None"
    and ll: "ll_length g \<le> int (length as) - 1"
    by (auto simp: LL_inv_def shape_def)
  from l0 have "0 \<le> pos mod ll_length g" and "pos mod ll_length g < ll_length g" by auto
  with ll l0 have i: "Suc i < length as" by (auto simp: i_def)
  then have w: "walk (heap g) i (Some (head g)) = Inr (Some (as ! i))"
    using walk_seg[OF sg, of i] by simp
  from inv_place[OF inv i, where len=len] obtain g' as' where
    p: "place_te g (Some (as ! i)) (next_TE_id g) len = (Inr (next_TE_id g), g')" and
    inv': "LL_inv g' as'" and n: "next_TE_id g' = next_TE_id g + 1" and
    l: "ll_length g' = ll_length g + len" and
    act: "ll_active_TE g' =
             (if 0 < len
              then AList.update (next_TE_id g) (alloc g, len)
                     (if te (heap g (as ! Suc i)) = 1
                      then AList.delete (node_te_id (heap g (as ! Suc i))) (ll_active_TE g)
                      else ll_active_TE g)
              else (if te (heap g (as ! Suc i)) = 1
                    then AList.delete (node_te_id (heap g (as ! Suc i))) (ll_active_TE g)
                    else ll_active_TE g))"
    by blast
  have "LL_insert_te g pos len = (Inr (next_TE_id g), g')"
    using l0 w p by (simp add: LL_insert_te_def i_def)
  moreover have "len \<le> 0 \<longrightarrow> (\<forall>k. has_key (ll_active_TE g') k \<longrightarrow> has_key (ll_active_TE g) k)"
    using act by (auto simp: has_key_delete)
  ultimately show ?thesis using inv' n l by blast
qed

lemma inv_insert_te_any:
  assumes inv: "LL_inv g as"
  shows "\<exists>r g' as'. LL_insert_te g pos len = (r, g') \<and> LL_inv g' as' \<and>
           (g' = g \<or> ll_length g' = ll_length g + len)"
proof (cases "ll_length g = 0")
  case True
  with inv show ?thesis by (auto simp: LL_insert_te_def)
next
  case False
  with inv_walk_place[OF inv, where i="nat (pos mod ll_length g - 1)" and len=len] show ?thesis
    by (simp add: LL_insert_te_def)
qed

lemma inv_copy_te:
  assumes inv: "LL_inv g as"
  shows "\<exists>r g' as'. LL_copy_te g t offset = (r, g') \<and> LL_inv g' as' \<and>
           ll_length g \<le> ll_length g'"
proof (cases "map_of (ll_active_TE g) t")
  case None
  with inv show ?thesis by (auto simp: LL_copy_te_def)
next
  case (Some al)
  obtain anchor len where al: "al = (anchor, len)" by (cases al)
  with Some inv have "key_ok g t anchor len" by (auto simp: LL_inv_def)
  then have len: "0 \<le> len" by (simp add: key_ok_def)
  show ?thesis
  proof (cases "scan (heap g) (nat (ll_length g)) t (Some (head g)) 0")
    case (Inl e)
    with inv Some al show ?thesis by (auto simp: LL_copy_te_def)
  next
    case (Inr pos)
    show ?thesis
    proof (cases "ll_length g = 0")
      case True
      with inv Some al Inr show ?thesis by (auto simp: LL_copy_te_def)
    next
      case False
      from inv_walk_place[OF inv, where i="nat (pos + offset mod ll_length g - 1)" and len=len]
      obtain r g' as' where
        w: "(case walk (heap g) (nat (pos + offset mod ll_length g - 1)) (Some (head g)) of
              Inl e \<Rightarrow> (Inl e, g)
            | Inr p \<Rightarrow> place_te g p (next_TE_id g) len) = (r, g')" and
        inv': "LL_inv g' as'" and l: "g' = g \<or> ll_length g' = ll_length g + len"
        by blast
      have "snd (LL_copy_te g t offset) = g'"
        using Some al Inr False w
        by (auto simp: LL_copy_te_def split: sum.splits prod.splits)
      with inv' l len show ?thesis by (cases "LL_copy_te g t offset") auto
    qed
  qed
qed

lemma inv_disable_any:
  assumes inv: "LL_inv g as"
  shows "\<exists>r g'. LL_disable_te g t = (r, g') \<and> LL_inv g' as \<and> ll_length g' = ll_length g"
proof (cases "map_of (ll_active_TE g) t")
  case None
  with inv show ?thesis by (auto simp: LL_disable_te_def)
next
  case (Some al)
  obtain anchor len where al: "al = (anchor, len)" by (cases al)
  from inv_disable[OF inv Some[unfolded al]] show ?thesis by auto
qed

lemma inv_step:
  assumes inv: "LL_inv g as"
  shows "\<exists>b g' as'. LL_step g x = Some (b, g') \<and> LL_inv g' as' \<and>
           (in_contract x \<longrightarrow> ll_length g \<le> ll_length g')"
proof (cases x)
  case (Insert_te pos len)
  from inv_insert_te_any[OF inv, of pos len] obtain r g' as' where
    c: "LL_insert_te g pos len = (r, g')" and i: "LL_inv g' as'" and
    l: "g' = g \<or> ll_length g' = ll_length g + len"
    by blast
  have "\<exists>b. LL_step g x = Some (b, g')"
    using c Insert_te by (cases r) auto
  moreover from l have "in_contract x \<longrightarrow> ll_length g \<le> ll_length g'"
    using Insert_te by auto
  ultimately show ?thesis using i by blast
next
  case (Copy_te t offset)
  from inv_copy_te[OF inv, of t offset] obtain r g' as' where
    c: "LL_copy_te g t offset = (r, g')" and i: "LL_inv g' as'" and l: "ll_length g \<le> ll_length g'"
    by blast
  have "\<exists>b. LL_step g x = Some (b, g')"
    using c Copy_te by (cases r) (auto split: option.splits)
  with i l show ?thesis by blast
next
  case (Disable_te t)
  from inv_disable_any[OF inv, of t] obtain r g' where
    c: "LL_disable_te g t = (r, g')" and i: "LL_inv g' as" and l: "ll_length g' = ll_length g"
    by blast
  have "\<exists>b. LL_step g x = Some (b, g')"
    using c Disable_te by (cases r) auto
  with i l show ?thesis by auto
next
  case Active_tes
  with inv show ?thesis by auto
next
  case Length_of
  from inv have "shape g as" by (simp add: LL_inv_def)
  from LL_len_shape[OF this] inv Length_of show ?thesis by auto
next
  case Render
  from inv have "shape g as" by (simp add: LL_inv_def)
  from LL_str_shape[OF this] inv Render show ?thesis by auto
qed

lemma inv_run:
  "LL_inv g as \<Longrightarrow>
   \<exists>bs g' as'. LL_run g ops = Some (bs, g') \<and> LL_inv g' as' \<and>
      (list_all in_contract ops \<longrightarrow> ll_length g \<le> ll_length g')"
proof (induction ops arbitrary: g as)
  case Nil
  then show ?case by auto
next
  case (Cons x xs)
  from inv_step[OF Cons.prems, of x] obtain b g1 as1 where
    st: "LL_step g x = Some (b, g1)" and i1: "LL_inv g1 as1" and
    l1: "in_contract x \<longrightarrow> ll_length g \<le> ll_length g1"
    by blast
  from Cons.IH[OF i1] obtain bs g' as' where
    r: "LL_run g1 xs = Some (bs, g')" and i': "LL_inv g' as'" and
    l': "list_all in_contract xs \<longrightarrow> ll_length g1 \<le> ll_length g'"
    by blast
  from st r i' l1 l' show ?case by auto
qed

lemma inv_init: "LL_inv (init_state (nat n) n) [0..<Suc (nat n)]"
proof -
  have "node_ok (init_state (nat n) n) a" for a
    by (simp add: node_ok_def init_state_def chain_heap_def Node_def has_key_def in_run_def)
  with shape_init[of "nat n" n] show ?thesis
    by (simp add: LL_inv_def key_ok_def) (simp add: init_state_def)
qed

lemma inv_session:
  "\<exists>bs g as. LL_session n ops = Some (bs, g) \<and> LL_inv g as \<and>
     (list_all in_contract ops \<longrightarrow> n \<le> ll_length g)"
  using inv_run[OF inv_init, of n ops]
  by (auto simp: LL_session_init init_state_def)

text \<open>What the invariant says about the rendering of a linked genome.\<close>

lemma node_char_ok:
  "node_ok g a \<Longrightarrow>
   node_char (heap g a) =
     (if node_te_id (heap g a) = 0 then CHR ''-''
      else if node_te_id (heap g a) \<in> set (LL_active_tes g) then CHR ''A'' else CHR ''x'')"
proof -
  assume n: "node_ok g a"
  have k: "has_key (ll_active_TE g) (node_te_id (heap g a)) =
        (node_te_id (heap g a) \<in> set (LL_active_tes g))"
    by (simp add: has_key_set LL_active_tes_def)
  from n have t: "te (heap g a) = 0 \<or> te (heap g a) = 1 \<or> te (heap g a) = 2"
    and z: "(te (heap g a) = 0) = (node_te_id (heap g a) = 0)"
    and o: "(te (heap g a) = 1) = (node_te_id (heap g a) \<in> set (LL_active_tes g))"
    unfolding node_ok_def k by blast+
  from t show ?thesis
  proof (elim disjE)
    assume "te (heap g a) = 0"
    with z show ?thesis by (simp add: node_char_def)
  next
    assume "te (heap g a) = 1"
    with z o show ?thesis by (simp add: node_char_def)
  next
    assume "te (heap g a) = 2"
    with z o show ?thesis by (simp add: node_char_def)
  qed
qed

lemma inv_render:
  assumes "LL_inv g as"
  shows "LL_str g =
           Some (map (\<lambda>a. if node_te_id (heap g a) = 0 then CHR ''-''
                          else if node_te_id (heap g a) \<in> set (LL_active_tes g) then CHR ''A''
                          else CHR ''x'') (butlast as)) \<and>
         LL_len g = Some (int (length (butlast as)))"
proof -
  from assms have sh: "shape g as" and ok: "\<And>a. a \<in> set as \<Longrightarrow> node_ok g a"
    by (auto simp: LL_inv_def)
  from sh have "as \<noteq> []" by (auto simp: shape_def dest: seg_nonempty)
  then have "int (length (butlast as)) = int (length as) - 1" by (cases as) simp_all
  then have l: "LL_len g = Some (int (length (butlast as)))"
    by (simp only: LL_len_shape[OF sh])
  have "map (\<lambda>b. node_char (heap g b)) (butlast as) =
        map (\<lambda>a. if node_te_id (heap g a) = 0 then CHR ''-''
                  else if node_te_id (heap g a) \<in> set (LL_active_tes g) then CHR ''A''
                  else CHR ''x'') (butlast as)"
  proof (rule map_cong[OF refl])
    fix a assume "a \<in> set (butlast as)"
    then have "a \<in> set as" by (rule in_set_butlastD)
    then have "node_ok g a" by (rule ok)
    then show "node_char (heap g a) =
        (if node_te_id (heap g a) = 0 then CHR ''-''
         else if node_te_id (heap g a) \<in> set (LL_active_tes g) then CHR ''A''
         else CHR ''x'')"
      by (rule node_char_ok)
  qed
  then have "LL_str g =
           Some (map (\<lambda>a. if node_te_id (heap g a) = 0 then CHR ''-''
                          else if node_te_id (heap g a) \<in> set (LL_active_tes g) then CHR ''A''
                          else CHR ''x'') (butlast as))"
    by (simp only: LL_str_shape[OF sh])
  then show ?thesis using l by (rule conjI)
qed

section \<open>Rendering\<close>




lemma slice_insert_Nil: "slice_insert xs pos [] = xs"
  by (simp add: slice_insert_def)

lemma set_list_repeat: "list_repeat x n = Inr ys \<Longrightarrow> set ys \<subseteq> {x}"
  by (auto simp: list_repeat_def split: if_splits)

text \<open>
  The genome after \<^verbatim>\<open>ListGenome.insert_te\<close> got past line 118: with the new positions
  \<open>ys\<close>, or with none when the list multiplication raised.
\<close>

lemma LG_insert_te_state:
  assumes "list_get (nucleotide g) pos = Inr x"
  shows "\<exists>ys. set ys \<subseteq> {Id (te_id g)} \<and>
           snd (LG_insert_te g pos len) =
             \<lparr>nucleotide = slice_insert (nucleotide g) pos ys,
              active_TE = AList.update (te_id g) len
                (if nuc_active (active_TE g) x then del_nuc x (active_TE g) else active_TE g),
              te_id = te_id g + 1\<rparr>"
proof (cases "list_repeat (Id (te_id g)) len")
  case (Inl e)
  then have "snd (LG_insert_te g pos len) =
             \<lparr>nucleotide = slice_insert (nucleotide g) pos [],
              active_TE = AList.update (te_id g) len
                (if nuc_active (active_TE g) x then del_nuc x (active_TE g) else active_TE g),
              te_id = te_id g + 1\<rparr>"
    using assms by (simp add: LG_insert_te_def Let_def slice_insert_Nil)
  then show ?thesis by (intro exI[of _ "[]"]) simp
next
  case (Inr ys)
  then have "snd (LG_insert_te g pos len) =
             \<lparr>nucleotide = slice_insert (nucleotide g) pos ys,
              active_TE = AList.update (te_id g) len
                (if nuc_active (active_TE g) x then del_nuc x (active_TE g) else active_TE g),
              te_id = te_id g + 1\<rparr>"
    using assms by (simp add: LG_insert_te_def Let_def)
  with set_list_repeat[OF Inr] show ?thesis by blast
qed




lemma LG_len_insert: "LG_len g \<le> LG_len (snd (LG_insert_te g pos len))"
proof (cases "list_get (nucleotide g) pos")
  case (Inl e)
  then show ?thesis by (simp add: LG_insert_te_def)
next
  case (Inr x)
  from LG_insert_te_state[OF Inr, of len] show ?thesis
    by (auto simp: LG_len_def slice_insert_def)
qed

lemma LG_copy_te_state:
  "snd (LG_copy_te g t offset) = g \<or>
   (\<exists>p len. snd (LG_copy_te g t offset) = snd (LG_insert_te g p len))"
  by (simp add: LG_copy_te_def split_beta split: option.splits sum.splits) blast

lemma LG_len_copy: "LG_len g \<le> LG_len (snd (LG_copy_te g t offset))"
  using LG_copy_te_state[of g t offset] LG_len_insert[of g] by auto

lemma LG_len_step: "LG_len g \<le> LG_len (snd (LG_step g x))"
proof (cases x)
  case (Insert_te pos len)
  with LG_len_insert[of g pos len] show ?thesis
    by (auto split: prod.splits sum.splits)
next
  case (Copy_te t offset)
  with LG_len_copy[of g t offset] show ?thesis
    by (auto split: prod.splits sum.splits option.splits)
next
  case (Disable_te t)
  then show ?thesis by (auto simp: LG_disable_te_def LG_len_def)
qed auto

lemma nuc_char_pos_char: "nuc_char d x = pos_char (map fst d) x"
  by (cases x) (simp_all add: has_key_set)

lemma LG_str_pos_char: "LG_str g = map (pos_char (LG_active_tes g)) (nucleotide g)"
  by (simp add: LG_str_def LG_active_tes_def nuc_char_pos_char)

text \<open>
  C9. After every session the rendering has one character per position, in order
  from position 0:
  \<^verbatim>\<open>'-'\<close> where nobody owns the position, \<^verbatim>\<open>'A'\<close> where the owner is in \<^verbatim>\<open>active_tes()\<close>,
  \<^verbatim>\<open>'x'\<close> where it is not; and the length of the rendering is \<^verbatim>\<open>len(genome)\<close>. For the
  linked genome \<^verbatim>\<open>str\<close> and \<^verbatim>\<open>len\<close> both return, and the positions are the nodes of
  the chain from the head on, the last node left out.
\<close>

theorem render_one_character_per_position:
  "(\<exists>bs g. LG_session n ops = (bs, g) \<and>
            LG_str g = map (pos_char (LG_active_tes g)) (nucleotide g) \<and>
            int (length (LG_str g)) = LG_len g) \<and>
         (\<exists>bs g as s. LL_session n ops = Some (bs, g) \<and>
            seg (heap g) (Some (head g)) as None \<and>
            LL_str g = Some s \<and>
            s = map (\<lambda>a. pos_char (LL_active_tes g) (owner (heap g a))) (butlast as) \<and>
            LL_len g = Some (int (length s)))"
proof
  show "\<exists>bs g. LG_session n ops = (bs, g) \<and>
            LG_str g = map (pos_char (LG_active_tes g)) (nucleotide g) \<and>
            int (length (LG_str g)) = LG_len g"
    by (cases "LG_session n ops") (simp add: LG_str_pos_char LG_len_def)
  from inv_session[of n ops] obtain bs g as where
    s: "LL_session n ops = Some (bs, g)" and inv: "LL_inv g as" by blast
  from inv have sg: "seg (heap g) (Some (head g)) as None" by (simp add: LL_inv_def shape_def)
  have "(\<lambda>a. if node_te_id (heap g a) = 0 then CHR ''-''
             else if node_te_id (heap g a) \<in> set (LL_active_tes g) then CHR ''A'' else CHR ''x'')
        = (\<lambda>a. pos_char (LL_active_tes g) (owner (heap g a)))"
    by (auto simp: fun_eq_iff owner_def)
  with inv_render[OF inv]
  have "LL_str g = Some (map (\<lambda>a. pos_char (LL_active_tes g) (owner (heap g a))) (butlast as))"
    and "LL_len g = Some (int (length (butlast as)))" by simp_all
  with s sg show "\<exists>bs g as s. LL_session n ops = Some (bs, g) \<and>
            seg (heap g) (Some (head g)) as None \<and>
            LL_str g = Some s \<and>
            s = map (\<lambda>a. pos_char (LL_active_tes g) (owner (heap g a))) (butlast as) \<and>
            LL_len g = Some (int (length s))"
    by auto
qed

section \<open>Insertion of a TE of length 0\<close>

lemma LG_len_run: "list_all in_contract ops \<Longrightarrow> LG_len g \<le> LG_len (snd (LG_run g ops))"
proof (induction ops arbitrary: g)
  case Nil
  then show ?case by simp
next
  case (Cons x xs)
  have "LG_len g \<le> LG_len (snd (LG_step g x))" by (rule LG_len_step)
  moreover have "LG_len (snd (LG_step g x)) \<le> LG_len (snd (LG_run (snd (LG_step g x)) xs))"
    using Cons by simp
  ultimately show ?case by (simp add: split_def)
qed






section \<open>Where the calls do what the contract asks\<close>

text \<open>
  \<^verbatim>\<open>ListGenome.disable_te\<close> of an id that is not active returns and changes nothing.
\<close>

lemma LG_disable_te_inactive:
  "t \<notin> set (LG_active_tes g) \<Longrightarrow> LG_disable_te g t = (Inr (), g)"
  by (simp add: LG_disable_te_def LG_active_tes_def has_key_set)

text \<open>
  \<^verbatim>\<open>ListGenome.insert_te\<close> raises exactly for a position outside \<open>-len \<le> pos < len\<close> or a
  length that the list multiplication of line 123 refuses. For the position it changes
  nothing; for the length it has already advanced \<^verbatim>\<open>self.te_id\<close>.
\<close>

lemma list_repeat_raises_iff:
  "(\<exists>e. list_repeat x n = Inl e) = (n < - 9223372036854775808 \<or> 1152921504606846976 \<le> n)"
  by (auto simp: list_repeat_def)

lemma LG_insert_te_raises_iff:
  "(\<exists>e g'. LG_insert_te g pos len = (Inl e, g')) =
     (pos < - LG_len g \<or> LG_len g \<le> pos \<or>
      len < - 9223372036854775808 \<or> 1152921504606846976 \<le> len)"
proof (cases "list_get (nucleotide g) pos")
  case (Inl e)
  then have "pos < - LG_len g \<or> LG_len g \<le> pos"
    by (auto simp: list_get_def LG_len_def Let_def split: if_splits)
  moreover from Inl have "LG_insert_te g pos len = (Inl e, g)" by (simp add: LG_insert_te_def)
  ultimately show ?thesis by blast
next
  case (Inr x)
  then have "\<not> (pos < - LG_len g \<or> LG_len g \<le> pos)"
    by (auto simp: list_get_def LG_len_def Let_def split: if_splits)
  moreover have "(\<exists>e g'. LG_insert_te g pos len = (Inl e, g')) =
      (\<exists>e. list_repeat (Id (te_id g)) len = Inl e)"
    using Inr by (cases "list_repeat (Id (te_id g)) len") (simp_all add: LG_insert_te_def Let_def)
  ultimately show ?thesis by (simp add: list_repeat_raises_iff)
qed

lemma LG_insert_te_raises_state:
  assumes "LG_insert_te g pos len = (Inl e, g')"
  shows "(pos < - LG_len g \<or> LG_len g \<le> pos) \<and> g' = g \<or>
         - LG_len g \<le> pos \<and> pos < LG_len g \<and> te_id g' = te_id g + 1 \<and>
           nucleotide g' = nucleotide g"
proof (cases "list_get (nucleotide g) pos")
  case (Inl e')
  then have "pos < - LG_len g \<or> LG_len g \<le> pos"
    by (auto simp: list_get_def LG_len_def Let_def split: if_splits)
  moreover from Inl assms have "g' = g" by (simp add: LG_insert_te_def)
  ultimately show ?thesis by blast
next
  case (Inr x)
  then have "\<not> (pos < - LG_len g \<or> LG_len g \<le> pos)"
    by (auto simp: list_get_def LG_len_def Let_def split: if_splits)
  with Inr assms show ?thesis
    by (cases "list_repeat (Id (te_id g)) len") (auto simp: LG_insert_te_def Let_def)
qed

text \<open>
  \<^verbatim>\<open>ListGenome.copy_te\<close> of an active TE whose first position is \<open>pos\<close> is
  \<^verbatim>\<open>insert_te((pos + offset) mod len, length)\<close>, and an offset one genome length lower
  gives the same call.
\<close>

lemma LG_copy_te_is_insert_te:
  assumes "map_of (active_TE g) t = Some len" and "list_index (nucleotide g) (Id t) = Inr pos"
    and "nucleotide g \<noteq> []"
  shows "LG_copy_te g t offset =
           (case LG_insert_te g ((pos + offset) mod LG_len g) len of
              (r, g') \<Rightarrow> (map_sum id Some r, g'))"
    and "LG_copy_te g t (offset - LG_len g) = LG_copy_te g t offset"
proof -
  have m: "(pos + (offset - LG_len g)) mod LG_len g = (pos + offset) mod LG_len g"
    by (simp add: add_diff_eq)
  show "LG_copy_te g t offset =
           (case LG_insert_te g ((pos + offset) mod LG_len g) len of
              (r, g') \<Rightarrow> (map_sum id Some r, g'))"
    using assms by (simp add: LG_copy_te_def LG_len_def)
  show "LG_copy_te g t (offset - LG_len g) = LG_copy_te g t offset"
    using assms m by (simp add: LG_copy_te_def LG_len_def)
qed

lemma LL_copy_te_wraps_offset:
  "LL_copy_te g t (offset - ll_length g) = LL_copy_te g t offset"
  by (simp add: LL_copy_te_def split: option.splits sum.splits prod.splits)

text \<open>
  The collision rule of \<^verbatim>\<open>ListGenome.insert_te\<close>, for a length that the list multiplication
  accepts: when the position is owned by the
  active TE \<open>t\<close>, \<open>t\<close> is not active afterwards, and the new rendering is the old one
  with \<^verbatim>\<open>'x'\<close> on every position of \<open>t\<close> and the \<^verbatim>\<open>'A'\<close>s of the new TE spliced in.
\<close>

lemma slice_index_map: "slice_index (map f xs) pos = slice_index xs pos"
  by (simp add: slice_index_def)

lemma map_slice_insert:
  "map f (slice_insert xs pos ys) = slice_insert (map f xs) pos (map f ys)"
  by (simp add: slice_insert_def slice_index_map take_map drop_map)

lemma LG_insert_te_collision:
  assumes inv: "LG_inv g" and x: "list_get (nucleotide g) pos = Inr (Id t)"
    and act: "has_key (active_TE g) t"
    and len: "- 9223372036854775808 \<le> len" "len < 1152921504606846976"
  shows "\<exists>g'. LG_insert_te g pos len = (Inr (te_id g), g') \<and>
           t \<notin> set (LG_active_tes g') \<and> te_id g \<in> set (LG_active_tes g') \<and>
           LG_str g' =
             slice_insert (map (\<lambda>y. if y = Id t then CHR ''x'' else nuc_char (active_TE g) y)
                             (nucleotide g))
               pos (replicate (nat len) CHR ''A'')"
proof -
  define d' where "d' = AList.update (te_id g) len (AList.delete t (active_TE g))"
  define g' where
    "g' = \<lparr>nucleotide = slice_insert (nucleotide g) pos (replicate (nat len) (Id (te_id g))),
           active_TE = d', te_id = te_id g + 1\<rparr>"
  have ins: "LG_insert_te g pos len = (Inr (te_id g), g')"
    using x act len by (simp add: LG_insert_te_def list_repeat_def Let_def g'_def d'_def)
  from inv have k: "\<And>k. has_key (active_TE g) k \<Longrightarrow> k < te_id g"
    and n: "\<And>y. y \<in> set (nucleotide g) \<Longrightarrow> nuc_below (te_id g) y"
    by (auto simp: LG_inv_def)
  from k[OF act] have tt: "t \<noteq> te_id g" by simp
  have hk: "has_key d' j = (j = te_id g \<or> (j \<noteq> t \<and> has_key (active_TE g) j))" for j
    by (simp add: d'_def has_key_update has_key_delete)
  have gone: "t \<notin> set (LG_active_tes g')"
    using hk[of t] tt by (simp add: LG_active_tes_def g'_def has_key_set)
  have there: "te_id g \<in> set (LG_active_tes g')"
    using hk[of "te_id g"] by (simp add: LG_active_tes_def g'_def has_key_set)
  have old: "nuc_char d' y = (if y = Id t then CHR ''x'' else nuc_char (active_TE g) y)"
    if "y \<in> set (nucleotide g)" for y
    using n[OF that] tt by (cases y) (auto simp: hk)
  have new: "nuc_char d' (Id (te_id g)) = CHR ''A''" by (simp add: hk)
  have "LG_str g' =
          slice_insert (map (nuc_char d') (nucleotide g)) pos
            (replicate (nat len) (nuc_char d' (Id (te_id g))))"
    by (simp add: LG_str_def g'_def map_slice_insert)
  also have "map (nuc_char d') (nucleotide g) =
          map (\<lambda>y. if y = Id t then CHR ''x'' else nuc_char (active_TE g) y) (nucleotide g)"
    by (rule map_cong[OF refl]) (rule old)
  finally have "LG_str g' =
             slice_insert (map (\<lambda>y. if y = Id t then CHR ''x'' else nuc_char (active_TE g) y)
                             (nucleotide g))
               pos (replicate (nat len) CHR ''A'')"
    by (simp only: new)
  with ins gone there show ?thesis by blast
qed

text \<open>
  \<^verbatim>\<open>LinkedListGenome.insert_te\<close> on a genome with \<^verbatim>\<open>self.length > 0\<close>, after any session:
  it returns the counter's value for every integer position and every length.
\<close>

lemma LL_insert_te_returns:
  assumes "LL_session n ops = Some (bs, g)" and "0 < ll_length g"
  shows "\<exists>g'. LL_insert_te g pos len = (Inr (next_TE_id g), g') \<and>
           next_TE_id g' = next_TE_id g + 1 \<and> ll_length g' = ll_length g + len"
proof -
  from inv_session[of n ops] assms(1) obtain as where "LL_inv g as" by auto
  from inv_insert_te[OF this assms(2), where pos=pos and len=len] show ?thesis by blast
qed

end
